theory Spec2Isabelle
  imports Main "HOL-Library.Monad_Syntax"
begin


section \<open>Tagged source\<close>

text \<open>
  The tagged source, the edit nodes and the source editor of \<open>website/nb_transpiler.ts\<close>.
  A \<open>SourceChar\<close> is one character together with the offset and file it came from.
  \<open>SourceLike\<close> is the union \<open>string | Source\<close>; \<open>convert\<close> tags a plain string
  character by character and returns a \<open>Source\<close> as it is. One \<open>char\<close> of the model
  stands for one element of \<open>Array.from(source)\<close>.
\<close>

datatype sourceChar = SourceChar (char: char) (pos: "nat option") (file_name: "string option")

type_synonym source = "sourceChar list"

datatype sourceLike = Str string | Src source

definition convert :: "sourceLike \<Rightarrow> string option \<Rightarrow> source" where
  "convert source file =
     (case source of
        Str s \<Rightarrow> map (\<lambda>(char, pos). SourceChar char (Some pos) file) (zip s [0..<length s])
      | Src cs \<Rightarrow> cs)"

section \<open>Edit nodes\<close>

datatype editNode = EditNode (current: source)

definition EditNode_prepend :: "sourceLike \<Rightarrow> editNode \<Rightarrow> editNode" where
  "EditNode_prepend source n = EditNode (convert source None @ current n)"

definition EditNode_append :: "sourceLike \<Rightarrow> editNode \<Rightarrow> editNode" where
  "EditNode_append source n = EditNode (current n @ convert source None)"

definition EditNode_replace :: "sourceLike \<Rightarrow> editNode \<Rightarrow> editNode" where
  "EditNode_replace source n = EditNode (convert source None)"

definition EditNode_clear :: "editNode \<Rightarrow> editNode" where
  "EditNode_clear n = EditNode []"

section \<open>The source editor and its edit index\<close>

text \<open>
  The editor owns the index, a list of edit nodes. Reading \<open>this.index[i]\<close> out of range
  gives \<open>undefined\<close> in the source and the method call on it throws; the model returns
  \<open>None\<close> there.
\<close>

datatype sourceEditor = SourceEditor (index: "editNode list")

definition get_source :: "sourceEditor \<Rightarrow> source" where
  "get_source ed = foldl (\<lambda>source n. source @ current n) [] (index ed)"

definition set_source :: "source \<Rightarrow> sourceEditor" where
  "set_source source =
     (if length source > 0 then SourceEditor (map (\<lambda>char. EditNode [char]) source)
      else SourceEditor [EditNode []])"

definition SourceEditor_new :: "sourceLike \<Rightarrow> string option \<Rightarrow> sourceEditor" where
  "SourceEditor_new source file = set_source (convert source file)"

definition SourceEditor_text :: "sourceEditor \<Rightarrow> string" where
  "SourceEditor_text ed = map char (get_source ed)"

text \<open>\<open>stratify\<close> returns the rendered text together with the rebuilt editor.\<close>

definition stratify :: "sourceEditor \<Rightarrow> string \<times> sourceEditor" where
  "stratify ed =
     (let source = get_source ed;
          ed' = set_source source
      in (SourceEditor_text ed', ed'))"

text \<open>The loop \<open>for (let i = start + 1; i < end; i++) this.index[i].clear()\<close>.\<close>

function clear_from :: "nat \<Rightarrow> nat \<Rightarrow> editNode list \<Rightarrow> editNode list option" where
  "clear_from i endp ix =
     (if i < endp then
        (if i < length ix then clear_from (i + 1) endp (ix[i := EditNode_clear (ix ! i)])
         else None)
      else Some ix)"
  by pat_completeness auto
termination
  by (relation "measure (\<lambda>(i, endp, ix). endp - i)") auto

declare clear_from.simps [simp del]

definition SourceEditor_replace ::
  "nat \<Rightarrow> nat \<Rightarrow> sourceLike \<Rightarrow> sourceEditor \<Rightarrow> sourceEditor option" where
  "SourceEditor_replace start endp str ed =
     (if start < length (index ed) then
        map_option SourceEditor
          (clear_from (start + 1) endp ((index ed)[start := EditNode_replace str (index ed ! start)]))
      else None)"

section \<open>Syntax trees\<close>

text \<open>
  The parser is an external library; the transpiler only reads the trees it returns. A
  node carries its type (the constructor), its \<open>start\<close> and \<open>end\<close> offsets and the
  fields the visitors and the walker read. The model covers the node types below; the
  fields are, in order: \<open>Identifier name\<close>, \<open>CallExpression callee arguments\<close>,
  \<open>AssignmentExpression left right\<close>, \<open>FunctionExpression params body\<close> (and the arrow
  function), \<open>ObjectPattern properties\<close>, \<open>Property shorthand key value\<close>,
  \<open>ArrayPattern elements\<close> (\<open>None\<close> for a hole), \<open>ExpressionStatement expression\<close>,
  \<open>BlockStatement body\<close>, \<open>IfStatement test consequent alternate\<close>,
  \<open>VariableDeclaration kind declarations\<close>, \<open>VariableDeclarator id init\<close>,
  \<open>FunctionDeclaration id params body\<close>, \<open>ClassDeclaration id superClass body.body\<close>,
  \<open>MethodDefinition key value\<close>, \<open>ImportDeclaration specifiers source\<close>,
  \<open>ImportSpecifier imported local\<close>, \<open>ImportDefaultSpecifier local\<close>,
  \<open>ImportNamespaceSpecifier local\<close>, \<open>Program body\<close>.
\<close>

datatype node =
    Identifier (node_start: nat) (node_end: nat) string
  | Literal (node_start: nat) (node_end: nat)
  | CallExpression (node_start: nat) (node_end: nat) node "node list"
  | AssignmentExpression (node_start: nat) (node_end: nat) node node
  | FunctionExpression (node_start: nat) (node_end: nat) "node list" node
  | ArrowFunctionExpression (node_start: nat) (node_end: nat) "node list" node
  | ObjectPattern (node_start: nat) (node_end: nat) "node list"
  | Property (node_start: nat) (node_end: nat) bool node node
  | ArrayPattern (node_start: nat) (node_end: nat) "node option list"
  | ExpressionStatement (node_start: nat) (node_end: nat) node
  | BlockStatement (node_start: nat) (node_end: nat) "node list"
  | IfStatement (node_start: nat) (node_end: nat) node node "node option"
  | VariableDeclaration (node_start: nat) (node_end: nat) string "node list"
  | VariableDeclarator (node_start: nat) (node_end: nat) node "node option"
  | FunctionDeclaration (node_start: nat) (node_end: nat) node "node list" node
  | ClassDeclaration (node_start: nat) (node_end: nat) node "node option" "node list"
  | MethodDefinition (node_start: nat) (node_end: nat) node node
  | ImportDeclaration (node_start: nat) (node_end: nat) "node list" node
  | ImportSpecifier (node_start: nat) (node_end: nat) node node
  | ImportDefaultSpecifier (node_start: nat) (node_end: nat) node
  | ImportNamespaceSpecifier (node_start: nat) (node_end: nat) node
  | Program (node_start: nat) (node_end: nat) "node list"

text \<open>\<open>node.type === "Identifier"\<close>, and \<open>node.name\<close> as a template string renders it.\<close>

fun is_Identifier :: "node \<Rightarrow> bool" where
  "is_Identifier (Identifier s e n) = True"
| "is_Identifier _ = False"

fun node_name :: "node \<Rightarrow> string" where
  "node_name (Identifier s e n) = n"
| "node_name _ = ''undefined''"

text \<open>\<open>decl.init\<close> as a condition: true for a declarator with an initializer.\<close>

fun has_init :: "node \<Rightarrow> bool" where
  "has_init (VariableDeclarator s e i (Some init)) = True"
| "has_init _ = False"

definition importFn :: string where
  "importFn = ''__import''"

definition globalVar :: string where
  "globalVar = ''__global''"

text \<open>\<open>prepend({ start }, str)\<close> and \<open>append({ end }, str)\<close> of the editor.\<close>

definition SourceEditor_prepend :: "node \<Rightarrow> sourceLike \<Rightarrow> sourceEditor \<Rightarrow> sourceEditor option" where
  "SourceEditor_prepend node str ed =
     (let start = node_start node in
      if start < length (index ed) then
        Some (SourceEditor ((index ed)[start := EditNode_prepend str (index ed ! start)]))
      else None)"

definition SourceEditor_append :: "node \<Rightarrow> sourceLike \<Rightarrow> sourceEditor \<Rightarrow> sourceEditor option" where
  "SourceEditor_append node str ed =
     (let endp = node_end node in
      if 0 < endp \<and> endp - 1 < length (index ed) then
        Some (SourceEditor ((index ed)[endp - 1 := EditNode_append str (index ed ! (endp - 1))]))
      else None)"

section \<open>The walker\<close>

text \<open>
  \<open>walk.recursive\<close> calls the visitor registered for the type of a node, or the walker's
  own \<open>walk.base\<close> entry, which continues into the children with the callback \<open>c\<close>. The
  walker belongs to the parser library; its entries are modelled for the node types
  above, as the library defines them. The two combinators are the loops of \<open>walk.base\<close>
  over a list of children and over an optional child; a visitor that throws ends the
  walk.
\<close>

fun walk_each :: "('a \<Rightarrow> 's \<Rightarrow> 's option) \<Rightarrow> 'a list \<Rightarrow> 's \<Rightarrow> 's option" where
  "walk_each c [] st = Some st"
| "walk_each c (x # xs) st = (case c x st of None \<Rightarrow> None | Some st' \<Rightarrow> walk_each c xs st')"

lemma walk_each_cong [fundef_cong]:
  "xs = ys \<Longrightarrow> st = st' \<Longrightarrow> (\<And>x s. x \<in> set ys \<Longrightarrow> c x s = d x s) \<Longrightarrow>
   walk_each c xs st = walk_each d ys st'"
  by (induction ys arbitrary: xs st st') (auto split: option.splits)

fun walk_opt :: "('a \<Rightarrow> 's \<Rightarrow> 's option) \<Rightarrow> 'a option \<Rightarrow> 's \<Rightarrow> 's option" where
  "walk_opt c None st = Some st"
| "walk_opt c (Some x) st = c x st"

lemma walk_opt_cong [fundef_cong]:
  "x = y \<Longrightarrow> st = st' \<Longrightarrow> (\<And>z s. y = Some z \<Longrightarrow> c z s = d z s) \<Longrightarrow>
   walk_opt c x st = walk_opt d y st'"
  by (cases y) auto

section \<open>Import rewrite pass\<close>

text \<open>The loop of \<open>ImportDeclaration\<close> over \<open>spec[1..]\<close>; it returns the last \<open>cur\<close>.\<close>

fun join_specifiers :: "node \<Rightarrow> node list \<Rightarrow> sourceEditor \<Rightarrow> (node \<times> sourceEditor) option" where
  "join_specifiers cur [] ed = Some (cur, ed)"
| "join_specifiers cur (s # rest) ed = do {
     ed \<leftarrow> SourceEditor_replace (node_end cur) (node_start s) (Str '','') ed;
     join_specifiers s rest ed
   }"

text \<open>The edits of the \<open>ImportDeclaration\<close> visitor, before it continues into the children.\<close>

definition ImportDeclaration_edits ::
  "nat \<Rightarrow> nat \<Rightarrow> node list \<Rightarrow> node \<Rightarrow> sourceEditor \<Rightarrow> sourceEditor option" where
  "ImportDeclaration_edits start endp spec src ed =
     (case spec of
        cur # rest \<Rightarrow> do {
          ed \<leftarrow> SourceEditor_replace start (node_start cur) (Str ''var {'') ed;
          (cur, ed) \<leftarrow> join_specifiers cur rest ed;
          ed \<leftarrow> SourceEditor_replace (node_end cur) (node_start src)
                 (Str (''} = {_:await '' @ importFn @ ''('')) ed;
          SourceEditor_replace (node_end src) endp (Str '')};'') ed
        }
      | [] \<Rightarrow> do {
          ed \<leftarrow> SourceEditor_replace start (node_start src) (Str (''await '' @ importFn @ ''('')) ed;
          SourceEditor_replace (node_end src) endp (Str '');'') ed
        })"

definition ImportSpecifier_edits ::
  "nat \<Rightarrow> nat \<Rightarrow> node \<Rightarrow> node \<Rightarrow> sourceEditor \<Rightarrow> sourceEditor option" where
  "ImportSpecifier_edits start endp imported local ed = do {
     ed \<leftarrow> SourceEditor_prepend (ImportSpecifier start endp imported local) (Str ''_:{'') ed;
     ed \<leftarrow> (if node_start local > node_end imported
            then SourceEditor_replace (node_end imported) (node_start local) (Str '':'') ed
            else Some ed);
     SourceEditor_append (ImportSpecifier start endp imported local) (Str ''}'') ed
   }"

definition ImportDefaultSpecifier_edits :: "node \<Rightarrow> sourceEditor \<Rightarrow> sourceEditor option" where
  "ImportDefaultSpecifier_edits local ed = do {
     ed \<leftarrow> SourceEditor_prepend local (Str ''_:{default:'') ed;
     SourceEditor_append local (Str ''}'') ed
   }"

definition ImportNamespaceSpecifier_edits :: "nat \<Rightarrow> node \<Rightarrow> sourceEditor \<Rightarrow> sourceEditor option" where
  "ImportNamespaceSpecifier_edits start local ed =
     SourceEditor_replace start (node_start local) (Str ''_:'') ed"

text \<open>
  \<open>walk.recursive(body, { edit }, importVisitors)\<close>: the callback \<open>c\<close>. The state of this
  walk is the editor. Functions and methods are not entered (\<open>noop\<close>); every other type
  without a visitor is walked as \<open>walk.base\<close> does.
\<close>

fun import_c :: "node \<Rightarrow> sourceEditor \<Rightarrow> sourceEditor option" where
  "import_c (ImportDeclaration s e spec src) ed = do {
     ed \<leftarrow> ImportDeclaration_edits s e spec src ed;
     ed \<leftarrow> walk_each import_c spec ed;
     import_c src ed
   }"
| "import_c (ImportSpecifier s e imported local) ed = ImportSpecifier_edits s e imported local ed"
| "import_c (ImportDefaultSpecifier s e local) ed = ImportDefaultSpecifier_edits local ed"
| "import_c (ImportNamespaceSpecifier s e local) ed = ImportNamespaceSpecifier_edits s local ed"
| "import_c (FunctionDeclaration s e i params b) ed = Some ed"
| "import_c (FunctionExpression s e params b) ed = Some ed"
| "import_c (ArrowFunctionExpression s e params b) ed = Some ed"
| "import_c (MethodDefinition s e k v) ed = Some ed"
| "import_c (Identifier s e n) ed = Some ed"
| "import_c (Literal s e) ed = Some ed"
| "import_c (CallExpression s e callee args) ed = do {
     ed \<leftarrow> import_c callee ed;
     walk_each import_c args ed
   }"
| "import_c (AssignmentExpression s e l r) ed = do {
     ed \<leftarrow> import_c l ed;
     import_c r ed
   }"
| "import_c (ObjectPattern s e props) ed =
     walk_each (\<lambda>p ed. case p of Property _ _ _ _ v \<Rightarrow> import_c v ed | _ \<Rightarrow> None) props ed"
| "import_c (Property s e shorthand k v) ed = import_c v ed"
| "import_c (ArrayPattern s e elts) ed = walk_each (walk_opt import_c) elts ed"
| "import_c (ExpressionStatement s e x) ed = import_c x ed"
| "import_c (BlockStatement s e stmts) ed = walk_each import_c stmts ed"
| "import_c (Program s e stmts) ed = walk_each import_c stmts ed"
| "import_c (IfStatement s e test consequent alternate) ed = do {
     ed \<leftarrow> import_c test ed;
     ed \<leftarrow> import_c consequent ed;
     walk_opt import_c alternate ed
   }"
| "import_c (VariableDeclaration s e kind decls) ed = walk_each import_c decls ed"
| "import_c (VariableDeclarator s e i init) ed = do {
     ed \<leftarrow> import_c i ed;
     walk_opt import_c init ed
   }"
| "import_c (ClassDeclaration s e i super items) ed = do {
     ed \<leftarrow> import_c i ed;
     ed \<leftarrow> walk_opt import_c super ed;
     walk_each import_c items ed
   }"

section \<open>Scope rewrite pass\<close>

record scopeState =
  edit :: sourceEditor
  body :: node
  translatingVariableDeclaration :: bool

text \<open>
  \<open>walkRecursiveWithAncestors\<close> pushes a node on the ancestor stack unless it is the one
  on top already. Nodes are compared by identity in the source; the node on top is the
  node itself or its parent, which properly contains it, so equality of trees decides
  the same.
\<close>

definition push_new :: "node list \<Rightarrow> node \<Rightarrow> node list" where
  "push_new ancestors node =
     (if ancestors \<noteq> [] \<and> last ancestors = node then ancestors else ancestors @ [node])"

text \<open>
  \<open>assert(ancestors.length >= 2)\<close> followed by the test
  \<open>ancestors[ancestors.length - 2] === state.body\<close>.
\<close>

definition parent_is_body :: "node list \<Rightarrow> scopeState \<Rightarrow> bool option" where
  "parent_is_body ancestors st =
     (if length ancestors \<ge> 2 then Some (ancestors ! (length ancestors - 2) = body st) else None)"

definition ClassDeclaration_edits :: "node \<Rightarrow> node \<Rightarrow> scopeState \<Rightarrow> scopeState option" where
  "ClassDeclaration_edits node i st = do {
     ed \<leftarrow> SourceEditor_prepend node (Str (globalVar @ ''.'' @ node_name i @ ''='')) (edit st);
     ed \<leftarrow> SourceEditor_append node (Str '');'') ed;
     Some (st\<lparr>edit := ed\<rparr>)
   }"

definition FunctionDeclaration_edits :: "node \<Rightarrow> node \<Rightarrow> scopeState \<Rightarrow> scopeState option" where
  "FunctionDeclaration_edits node i st = do {
     ed \<leftarrow> SourceEditor_prepend node (Str (''void ('' @ globalVar @ ''.'' @ node_name i @ ''='')) (edit st);
     ed \<leftarrow> SourceEditor_append node (Str '');'') ed;
     Some (st\<lparr>edit := ed\<rparr>)
   }"

text \<open>The body of the loop \<open>for (decl of node.declarations)\<close>.\<close>

definition wrap_declarator :: "node \<Rightarrow> sourceEditor \<Rightarrow> sourceEditor option" where
  "wrap_declarator decl ed =
     (if has_init decl then do {
        ed \<leftarrow> SourceEditor_prepend decl (Str ''('') ed;
        SourceEditor_append decl (Str '')'') ed
      } else do {
        ed \<leftarrow> SourceEditor_prepend decl (Str ''('') ed;
        SourceEditor_append decl (Str ''= undefined)'') ed
      })"

text \<open>
  The edits of a translated \<open>VariableDeclaration\<close>, after the walk into its declarators.
  After the loop \<open>decl\<close> is the last declarator; with no declarator it is \<open>undefined\<close> and
  the last \<open>append\<close> throws.
\<close>

definition VariableDeclaration_edits ::
  "nat \<Rightarrow> string \<Rightarrow> node list \<Rightarrow> sourceEditor \<Rightarrow> sourceEditor option" where
  "VariableDeclaration_edits start kind decls ed = do {
     ed \<leftarrow> SourceEditor_replace start (start + length kind + 1) (Str ''void ('') ed;
     ed \<leftarrow> walk_each wrap_declarator decls ed;
     (if decls = [] then None else SourceEditor_append (last decls) (Str '')'') ed)
   }"

definition VariableDeclarator_edits :: "node \<Rightarrow> scopeState \<Rightarrow> scopeState option" where
  "VariableDeclarator_edits i st =
     (if \<not> translatingVariableDeclaration st then Some st
      else if is_Identifier i then do {
        ed \<leftarrow> SourceEditor_prepend i (Str (globalVar @ ''.'')) (edit st);
        Some (st\<lparr>edit := ed\<rparr>)
      } else Some st)"

text \<open>The loop of the \<open>ObjectPattern\<close> visitor over the properties.\<close>

fun ObjectPattern_property :: "node \<Rightarrow> sourceEditor \<Rightarrow> sourceEditor option" where
  "ObjectPattern_property (Property s e shorthand k v) ed =
     (if shorthand then SourceEditor_append v (Str ('':'' @ globalVar @ ''.'' @ node_name v)) ed
      else if is_Identifier v then SourceEditor_prepend v (Str (globalVar @ ''.'')) ed
      else Some ed)"
| "ObjectPattern_property _ ed = None"

definition ObjectPattern_edits :: "node list \<Rightarrow> scopeState \<Rightarrow> scopeState option" where
  "ObjectPattern_edits props st =
     (if \<not> translatingVariableDeclaration st then Some st
      else do {
        ed \<leftarrow> walk_each ObjectPattern_property props (edit st);
        Some (st\<lparr>edit := ed\<rparr>)
      })"

text \<open>
  The loop of the \<open>ArrayPattern\<close> visitor over the elements; reading \<open>e.type\<close> of a hole
  throws.
\<close>

fun ArrayPattern_element :: "node option \<Rightarrow> sourceEditor \<Rightarrow> sourceEditor option" where
  "ArrayPattern_element None ed = None"
| "ArrayPattern_element (Some e) ed =
     (if is_Identifier e then SourceEditor_prepend e (Str (globalVar @ ''.'')) ed else Some ed)"

definition ArrayPattern_edits :: "node option list \<Rightarrow> scopeState \<Rightarrow> scopeState option" where
  "ArrayPattern_edits elts st =
     (if \<not> translatingVariableDeclaration st then Some st
      else do {
        ed \<leftarrow> walk_each ArrayPattern_element elts (edit st);
        Some (st\<lparr>edit := ed\<rparr>)
      })"

text \<open>
  \<open>walkRecursiveWithAncestors(body, state, evalScopeVisitors)\<close>: the callback \<open>c\<close>, with the
  ancestor stack as it is when \<open>c\<close> is called. A visitor sees the stack with its own node
  on top.
\<close>

fun scope_c :: "node list \<Rightarrow> node \<Rightarrow> scopeState \<Rightarrow> scopeState option" where
  "scope_c ancestors (ClassDeclaration s e i super items) st =
     (let node = ClassDeclaration s e i super items;
          ancestors = push_new ancestors node
      in do {
        st \<leftarrow> scope_c ancestors i st;
        st \<leftarrow> walk_opt (scope_c ancestors) super st;
        st \<leftarrow> walk_each (scope_c ancestors) items st;
        top \<leftarrow> parent_is_body ancestors st;
        (if \<not> top then Some st else ClassDeclaration_edits node i st)
      })"
| "scope_c ancestors (FunctionDeclaration s e i params b) st =
     FunctionDeclaration_edits (FunctionDeclaration s e i params b) i st"
| "scope_c ancestors (VariableDeclaration s e kind decls) st =
     (let node = VariableDeclaration s e kind decls;
          ancestors = push_new ancestors node
      in do {
        top \<leftarrow> parent_is_body ancestors st;
        let translateDecl = (kind = ''var'' \<or> top);
        st \<leftarrow> walk_each (scope_c ancestors) decls
               (st\<lparr>translatingVariableDeclaration := translateDecl\<rparr>);
        let st = st\<lparr>translatingVariableDeclaration := False\<rparr>;
        (if \<not> translateDecl then Some st
         else do {
           ed \<leftarrow> VariableDeclaration_edits s kind decls (edit st);
           Some (st\<lparr>edit := ed\<rparr>)
         })
      })"
| "scope_c ancestors (VariableDeclarator s e i init) st =
     (let ancestors = push_new ancestors (VariableDeclarator s e i init)
      in do {
        st \<leftarrow> scope_c ancestors i st;
        st \<leftarrow> walk_opt (scope_c ancestors) init st;
        VariableDeclarator_edits i st
      })"
| "scope_c ancestors (ObjectPattern s e props) st =
     (let ancestors = push_new ancestors (ObjectPattern s e props)
      in do {
        st \<leftarrow> walk_each (\<lambda>p st. case p of Property _ _ _ _ v \<Rightarrow> scope_c ancestors v st | _ \<Rightarrow> None)
               props st;
        ObjectPattern_edits props st
      })"
| "scope_c ancestors (ArrayPattern s e elts) st =
     (let ancestors = push_new ancestors (ArrayPattern s e elts)
      in do {
        st \<leftarrow> walk_each (walk_opt (scope_c ancestors)) elts st;
        ArrayPattern_edits elts st
      })"
| "scope_c ancestors (FunctionExpression s e params b) st = Some st"
| "scope_c ancestors (ArrowFunctionExpression s e params b) st = Some st"
| "scope_c ancestors (MethodDefinition s e k v) st = Some st"
| "scope_c ancestors (Identifier s e n) st = Some st"
| "scope_c ancestors (Literal s e) st = Some st"
| "scope_c ancestors (CallExpression s e callee args) st =
     (let ancestors = push_new ancestors (CallExpression s e callee args)
      in do {
        st \<leftarrow> scope_c ancestors callee st;
        walk_each (scope_c ancestors) args st
      })"
| "scope_c ancestors (AssignmentExpression s e l r) st =
     (let ancestors = push_new ancestors (AssignmentExpression s e l r)
      in do {
        st \<leftarrow> scope_c ancestors l st;
        scope_c ancestors r st
      })"
| "scope_c ancestors (Property s e shorthand k v) st =
     scope_c (push_new ancestors (Property s e shorthand k v)) v st"
| "scope_c ancestors (ExpressionStatement s e x) st =
     scope_c (push_new ancestors (ExpressionStatement s e x)) x st"
| "scope_c ancestors (BlockStatement s e stmts) st =
     walk_each (scope_c (push_new ancestors (BlockStatement s e stmts))) stmts st"
| "scope_c ancestors (Program s e stmts) st =
     walk_each (scope_c (push_new ancestors (Program s e stmts))) stmts st"
| "scope_c ancestors (IfStatement s e test consequent alternate) st =
     (let ancestors = push_new ancestors (IfStatement s e test consequent alternate)
      in do {
        st \<leftarrow> scope_c ancestors test st;
        st \<leftarrow> scope_c ancestors consequent st;
        walk_opt (scope_c ancestors) alternate st
      })"
| "scope_c ancestors (ImportDeclaration s e spec src) st =
     (let ancestors = push_new ancestors (ImportDeclaration s e spec src)
      in do {
        st \<leftarrow> walk_each (scope_c ancestors) spec st;
        scope_c ancestors src st
      })"
| "scope_c ancestors (ImportSpecifier s e imported local) st = Some st"
| "scope_c ancestors (ImportDefaultSpecifier s e local) st = Some st"
| "scope_c ancestors (ImportNamespaceSpecifier s e local) st = Some st"

section \<open>The orchestrator\<close>

text \<open>
  \<open>parseAsyncWrapped\<close>: the parser is a parameter, \<open>None\<close> where it rejects the text. The
  function reads \<open>root.body[0].expression\<close>, asserts that it is an arrow function and
  returns its body with the root.
\<close>

definition parseAsyncWrapped :: "(string \<Rightarrow> node option) \<Rightarrow> string \<Rightarrow> (node \<times> node) option" where
  "parseAsyncWrapped parse src =
     (case parse src of
        Some (Program s e (ExpressionStatement s1 e1 (ArrowFunctionExpression s2 e2 params b) # rest)) \<Rightarrow>
          Some (b, Program s e (ExpressionStatement s1 e1 (ArrowFunctionExpression s2 e2 params b) # rest))
      | _ \<Rightarrow> None)"

definition wrap_async :: "string \<Rightarrow> string" where
  "wrap_async src =
     ''(async ('' @ globalVar @ '', '' @ importFn @ '', console) => {\<newline>'' @ src @ ''\<newline>})''"

text \<open>
  The last step of \<open>transpile\<close>: a final expression statement of the body becomes a
  \<open>return\<close>. \<open>body.body.length > 0\<close> is false where \<open>body.body\<close> is a node and not a list
  (a function or a class as the body), and reading it throws where the body has no
  \<open>body\<close> field.
\<close>

fun body_statements :: "node \<Rightarrow> node list option option" where
  "body_statements (BlockStatement s e stmts) = Some (Some stmts)"
| "body_statements (Program s e stmts) = Some (Some stmts)"
| "body_statements (FunctionExpression s e params b) = Some None"
| "body_statements (ArrowFunctionExpression s e params b) = Some None"
| "body_statements (FunctionDeclaration s e i params b) = Some None"
| "body_statements (ClassDeclaration s e i super items) = Some None"
| "body_statements _ = None"

fun return_last :: "node \<Rightarrow> sourceEditor \<Rightarrow> sourceEditor option" where
  "return_last (ExpressionStatement s e expression) ed = do {
     ed \<leftarrow> SourceEditor_prepend (ExpressionStatement s e expression) (Str ''return ('') ed;
     SourceEditor_append expression (Str '')'') ed
   }"
| "return_last _ ed = Some ed"

definition return_rewrite :: "node \<Rightarrow> sourceEditor \<Rightarrow> sourceEditor option" where
  "return_rewrite b ed =
     (case body_statements b of
        None \<Rightarrow> None
      | Some None \<Rightarrow> Some ed
      | Some (Some stmts) \<Rightarrow> (if length stmts > 0 then return_last (last stmts) ed else Some ed))"

text \<open>
  The two passes of \<open>transpile\<close>, up to the walk of the scope pass: they return the body
  of the second parse and the editor after both walks. (The \<open>console.log\<close> of
  \<open>parseAsyncWrapped\<close> is not modelled.)
\<close>

definition rewrite_passes :: "(string \<Rightarrow> node option) \<Rightarrow> string \<Rightarrow> (node \<times> sourceEditor) option" where
  "rewrite_passes parse src = do {
     let src = wrap_async src;
     let ed = SourceEditor_new (Str src) None;
     (b, root) \<leftarrow> parseAsyncWrapped parse src;
     ed \<leftarrow> import_c b ed;
     let (src, ed) = stratify ed;
     (b, root) \<leftarrow> parseAsyncWrapped parse src;
     st \<leftarrow> scope_c [] b \<lparr>edit = ed, body = b, translatingVariableDeclaration = False\<rparr>;
     Some (b, edit st)
   }"

definition transpile :: "(string \<Rightarrow> node option) \<Rightarrow> string \<Rightarrow> string option" where
  "transpile parse src = do {
     (b, ed) \<leftarrow> rewrite_passes parse src;
     ed \<leftarrow> return_rewrite b ed;
     Some (SourceEditor_text ed)
   }"

section \<open>Softmax front-end\<close>

text \<open>
  \<open>Tensor.softmax\<close> and \<open>softmaxHelper\<close> of \<open>tensor.ts\<close>.
  Only the shape of a tensor matters to \<open>softmaxHelper\<close>. The ops (\<open>ops.softmax\<close>,
  \<open>ops.logSoftmax\<close>, \<open>ops.reshape\<close>) live in other modules and are parameters; what they
  throw (\<open>OpError\<close>) is kept apart from the \<open>Error\<close> that \<open>softmaxHelper\<close> throws itself. An element of
  a shape argument is \<open>None\<close> where the source passes \<open>undefined\<close> (\<open>t.shape[-1]\<close> of a
  scalar), and so is an omitted axis argument of an op.
\<close>

record tensor =
  shape :: "int list"

definition rank :: "tensor \<Rightarrow> nat" where
  "rank t = length (shape t)"

datatype 'x error = Error string | OpError 'x

type_synonym 'x softmax_op = "tensor \<Rightarrow> int option \<Rightarrow> 'x + tensor"

type_synonym 'x reshape_op = "tensor \<Rightarrow> int option list \<Rightarrow> 'x + tensor"

definition op_result :: "'x + tensor \<Rightarrow> 'x error + tensor" where
  "op_result r = (case r of Inl x \<Rightarrow> Inl (OpError x) | Inr t \<Rightarrow> Inr t)"

definition softmaxHelper ::
  "'x reshape_op \<Rightarrow> tensor \<Rightarrow> int \<Rightarrow> 'x softmax_op \<Rightarrow> 'x error + tensor" where
  "softmaxHelper reshape t axis op =
     (if axis \<noteq> - 1 then Inl (Error ''Softmax along a non-last axis is not yet supported.'')
      else if rank t = 2 then op_result (op t (Some axis))
      else
        let origShape = shape t;
            numClasses = (if rank t = 0 then None else Some (shape t ! (rank t - 1)))
        in (case reshape t [Some (- 1), numClasses] of
              Inl x \<Rightarrow> Inl (OpError x)
            | Inr t2 \<Rightarrow>
                (case op t2 None of
                   Inl x \<Rightarrow> Inl (OpError x)
                 | Inr result \<Rightarrow> op_result (reshape result (map Some origShape)))))"

text \<open>\<open>Tensor.softmax(axis = -1)\<close>: an omitted axis defaults to \<open>-1\<close>.\<close>

definition softmax ::
  "'x softmax_op \<Rightarrow> 'x reshape_op \<Rightarrow> tensor \<Rightarrow> int option \<Rightarrow> 'x error + tensor" where
  "softmax ops_softmax reshape t axis =
     softmaxHelper reshape t (case axis of None \<Rightarrow> - 1 | Some a \<Rightarrow> a) ops_softmax"

text \<open>
  An axis argument denotes the final axis of a tensor when it is \<open>-1\<close> or \<open>rank - 1\<close>:
  the convention of \<open>Tensor.reverse\<close> (\<open>-rank \<le> dim < rank\<close>, a negative \<open>dim\<close> counting
  from the end).
\<close>

definition denotes_axis :: "tensor \<Rightarrow> int \<Rightarrow> bool" where
  "denotes_axis t dim = (- int (rank t) \<le> dim \<and> dim < int (rank t))"

definition normalized_axis :: "tensor \<Rightarrow> int \<Rightarrow> int" where
  "normalized_axis t dim = (if dim \<ge> 0 then dim else int (rank t) + dim)"

definition final_axis :: "tensor \<Rightarrow> int \<Rightarrow> bool" where
  "final_axis t dim = (denotes_axis t dim \<and> normalized_axis t dim = int (rank t) - 1)"

section \<open>Rendered text of a span of the index\<close>

text \<open>
  \<open>span_text ed a b\<close> is the text that the edit nodes at the positions \<open>a \<le> i < b\<close>
  render, in order; \<open>text()\<close> is the span of the whole index. \<open>same_outside ed ed' a b\<close>
  says that \<open>ed'\<close> has the nodes of \<open>ed\<close> everywhere but at the positions of \<open>[a, b)\<close>.
\<close>

definition node_text :: "editNode \<Rightarrow> string" where
  "node_text n = map char (current n)"

definition span_text :: "sourceEditor \<Rightarrow> nat \<Rightarrow> nat \<Rightarrow> string" where
  "span_text ed a b = concat (map node_text (take (b - a) (drop a (index ed))))"

definition same_outside :: "sourceEditor \<Rightarrow> sourceEditor \<Rightarrow> nat \<Rightarrow> nat \<Rightarrow> bool" where
  "same_outside ed ed' a b =
     (length (index ed') = length (index ed) \<and>
      (\<forall>i < length (index ed). i < a \<or> b \<le> i \<longrightarrow> index ed' ! i = index ed ! i))"

section \<open>Cells that the passes leave alone\<close>

fun is_ExpressionStatement :: "node \<Rightarrow> bool" where
  "is_ExpressionStatement (ExpressionStatement s e x) = True"
| "is_ExpressionStatement _ = False"

text \<open>The declarations that are rewritten only directly under the wrapper body.\<close>

fun is_declaration :: "node \<Rightarrow> bool" where
  "is_declaration (VariableDeclaration s e kind decls) = True"
| "is_declaration (ClassDeclaration s e i super items) = True"
| "is_declaration _ = False"

text \<open>
  The statements that count as the imports and declarations of a cell: an import, and
  a \<open>var\<close>/\<open>let\<close>/\<open>const\<close>, \<open>function\<close> or \<open>class\<close> declaration.
\<close>

fun is_import_or_declaration :: "node \<Rightarrow> bool" where
  "is_import_or_declaration (ImportDeclaration s e spec src) = True"
| "is_import_or_declaration (VariableDeclaration s e kind decls) = True"
| "is_import_or_declaration (FunctionDeclaration s e i params b) = True"
| "is_import_or_declaration (ClassDeclaration s e i super items) = True"
| "is_import_or_declaration _ = False"

text \<open>
  \<open>untouched n\<close>: the walks reach, in \<open>n\<close>, no import, no \<open>function\<close> declaration and no
  \<open>var\<close> declaration (functions and methods are not entered). \<open>let\<close>, \<open>const\<close> and
  \<open>class\<close> declarations may occur; \<open>top_untouched\<close> excludes them for a statement that
  stands directly in the wrapper body.
\<close>

fun untouched :: "node \<Rightarrow> bool" where
  "untouched (ImportDeclaration s e spec src) = False"
| "untouched (ImportSpecifier s e imported local) = False"
| "untouched (ImportDefaultSpecifier s e local) = False"
| "untouched (ImportNamespaceSpecifier s e local) = False"
| "untouched (FunctionDeclaration s e i params b) = False"
| "untouched (VariableDeclaration s e kind decls) = (kind \<noteq> ''var'' \<and> list_all untouched decls)"
| "untouched (VariableDeclarator s e i init) =
     (untouched i \<and> (case init of None \<Rightarrow> True | Some x \<Rightarrow> untouched x))"
| "untouched (ClassDeclaration s e i super items) =
     (untouched i \<and> (case super of None \<Rightarrow> True | Some x \<Rightarrow> untouched x) \<and>
      list_all untouched items)"
| "untouched (ObjectPattern s e props) =
     list_all (\<lambda>p. case p of Property _ _ _ _ v \<Rightarrow> untouched v | _ \<Rightarrow> False) props"
| "untouched (Property s e shorthand k v) = untouched v"
| "untouched (ArrayPattern s e elts) =
     list_all (\<lambda>elt. case elt of None \<Rightarrow> True | Some x \<Rightarrow> untouched x) elts"
| "untouched (FunctionExpression s e params b) = True"
| "untouched (ArrowFunctionExpression s e params b) = True"
| "untouched (MethodDefinition s e k v) = True"
| "untouched (Identifier s e n) = True"
| "untouched (Literal s e) = True"
| "untouched (CallExpression s e callee args) = (untouched callee \<and> list_all untouched args)"
| "untouched (AssignmentExpression s e l r) = (untouched l \<and> untouched r)"
| "untouched (ExpressionStatement s e x) = untouched x"
| "untouched (BlockStatement s e stmts) = list_all untouched stmts"
| "untouched (Program s e stmts) = list_all untouched stmts"
| "untouched (IfStatement s e test consequent alternate) =
     (untouched test \<and> untouched consequent \<and>
      (case alternate of None \<Rightarrow> True | Some x \<Rightarrow> untouched x))"

definition top_untouched :: "node \<Rightarrow> bool" where
  "top_untouched n = (untouched n \<and> \<not> is_declaration n)"

section \<open>Well-placed declarators\<close>

text \<open>
  \<open>plain x\<close>: an expression without patterns and declarations, which the scope walk
  passes without an edit whatever the flag. A simple declarator binds an identifier
  that starts where the declarator starts, and has a plain initializer or none.
\<close>

fun plain :: "node \<Rightarrow> bool" where
  "plain (Identifier s e n) = True"
| "plain (Literal s e) = True"
| "plain (CallExpression s e callee args) = (plain callee \<and> list_all plain args)"
| "plain (AssignmentExpression s e l r) = (plain l \<and> plain r)"
| "plain (FunctionExpression s e params b) = True"
| "plain (ArrowFunctionExpression s e params b) = True"
| "plain _ = False"

definition simple_declarator :: "node \<Rightarrow> bool" where
  "simple_declarator d =
     (case d of
        VariableDeclarator s e i init \<Rightarrow>
          is_Identifier i \<and> node_start i = s \<and> s < e \<and>
          (case init of None \<Rightarrow> True | Some x \<Rightarrow> plain x)
      | _ \<Rightarrow> False)"

text \<open>
  \<open>inside s e c\<close>: the node \<open>c\<close> is not empty and lies in the span \<open>[s, e)\<close>. \<open>placed x\<close>:
  an expression or a pattern whose parts lie inside it, as the parser places them, and
  whose array patterns have no hole. The scope walk edits such a node at the identifiers
  of its patterns only.
\<close>

definition inside :: "nat \<Rightarrow> nat \<Rightarrow> node \<Rightarrow> bool" where
  "inside s e c = (s \<le> node_start c \<and> node_start c < node_end c \<and> node_end c \<le> e)"

fun placed :: "node \<Rightarrow> bool" where
  "placed (Identifier s e n) = True"
| "placed (Literal s e) = True"
| "placed (FunctionExpression s e params b) = True"
| "placed (ArrowFunctionExpression s e params b) = True"
| "placed (CallExpression s e callee args) =
     (inside s e callee \<and> placed callee \<and> list_all (\<lambda>a. inside s e a \<and> placed a) args)"
| "placed (AssignmentExpression s e l r) = (inside s e l \<and> placed l \<and> inside s e r \<and> placed r)"
| "placed (ObjectPattern s e props) =
     list_all (\<lambda>p. case p of Property ps pe sh k v \<Rightarrow> inside s e v \<and> placed v | _ \<Rightarrow> False) props"
| "placed (Property s e sh k v) = (inside s e v \<and> placed v)"
| "placed (ArrayPattern s e elts) =
     list_all (\<lambda>elt. case elt of None \<Rightarrow> False | Some x \<Rightarrow> inside s e x \<and> placed x) elts"
| "placed _ = False"

text \<open>
  A declarator as the scope pass can translate it: a simple declarator, or one whose
  binding (an identifier or a destructuring pattern) and initializer are placed inside
  it.
\<close>

definition placed_declarator :: "node \<Rightarrow> bool" where
  "placed_declarator d =
     (case d of
        VariableDeclarator s e i init \<Rightarrow>
          inside s e i \<and> placed i \<and>
          (case init of None \<Rightarrow> True | Some x \<Rightarrow> inside s e x \<and> placed x)
      | _ \<Rightarrow> False)"

definition wf_declarator :: "node \<Rightarrow> bool" where
  "wf_declarator d = (simple_declarator d \<or> placed_declarator d)"

text \<open>
  \<open>spaced_regions p L ds\<close>: the nodes \<open>ds\<close> lie one after the other between \<open>p\<close> and \<open>L\<close>,
  each non-empty, with at least one character before each of them.
\<close>

fun spaced_regions :: "nat \<Rightarrow> nat \<Rightarrow> node list \<Rightarrow> bool" where
  "spaced_regions p L [] = (p \<le> L)"
| "spaced_regions p L (d # ds) =
     (p < node_start d \<and> node_start d < node_end d \<and> spaced_regions (node_end d) L ds)"

text \<open>
  A step of a loop that rewrites the span of its own node only: it returns normally on
  an index that holds the node, leaves the index outside the span alone, and the text
  \<open>F d ed\<close> that it leaves in the span depends on the span only.
\<close>

definition region_step :: "(node \<Rightarrow> sourceEditor \<Rightarrow> sourceEditor option) \<Rightarrow> (node \<Rightarrow> sourceEditor \<Rightarrow> string) \<Rightarrow> node \<Rightarrow> bool" where
  "region_step f F d =
     ((\<forall>ed. node_end d \<le> length (index ed) \<longrightarrow>
         (\<exists>ed'. f d ed = Some ed' \<and> span_text ed' (node_start d) (node_end d) = F d ed \<and>
                same_outside ed ed' (node_start d) (node_end d))) \<and>
      (\<forall>ed1 ed2. length (index ed1) = length (index ed2) \<longrightarrow>
         (\<forall>i. node_start d \<le> i \<and> i < node_end d \<longrightarrow> index ed1 ! i = index ed2 ! i) \<longrightarrow>
         F d ed1 = F d ed2))"

definition declarator_suffix :: "node \<Rightarrow> string" where
  "declarator_suffix d = (if has_init d then '')'' else ''= undefined)'')"

section \<open>Well-placed import specifiers\<close>

text \<open>
  A specifier as the parser places it: a named specifier is non-empty, and with an alias
  the imported name is non-empty and the local name starts inside the specifier; a
  default specifier is its local name; the local name of a namespace specifier starts
  after the \<open>*\<close>.
\<close>

fun wf_specifier :: "node \<Rightarrow> bool" where
  "wf_specifier (ImportSpecifier s e imported local) =
     (s < e \<and>
      (node_start local > node_end imported \<longrightarrow>
         s < node_end imported \<and> node_start local < e))"
| "wf_specifier (ImportDefaultSpecifier s e local) = (node_start local = s \<and> node_end local = e \<and> s < e)"
| "wf_specifier (ImportNamespaceSpecifier s e local) = (s < node_start local \<and> node_start local < e)"
| "wf_specifier _ = False"

text \<open>
  The binding that stands for a specifier: \<open>_:{name}\<close>, \<open>_:{name:alias}\<close>,
  \<open>_:{default:local}\<close> and \<open>_:ns\<close>, the names being the text the editor holds for them.
\<close>

fun binding :: "sourceEditor \<Rightarrow> node \<Rightarrow> string" where
  "binding ed (ImportSpecifier s e imported local) =
     ''_:{'' @
     (if node_start local > node_end imported
      then span_text ed s (node_end imported) @ '':'' @ span_text ed (node_start local) e
      else span_text ed s e) @ ''}''"
| "binding ed (ImportDefaultSpecifier s e local) =
     ''_:{default:'' @ span_text ed (node_start local) (node_end local) @ ''}''"
| "binding ed (ImportNamespaceSpecifier s e local) = ''_:'' @ span_text ed (node_start local) e"
| "binding ed _ = []"

text \<open>\<open>joined B t ds\<close>: the texts \<open>B d\<close> of the nodes \<open>ds\<close>, separated by \<open>t\<close>.\<close>

fun joined :: "(node \<Rightarrow> string) \<Rightarrow> string \<Rightarrow> node list \<Rightarrow> string" where
  "joined B t [] = []"
| "joined B t [d] = B d"
| "joined B t (d # d' # ds) = B d @ t @ joined B t (d' # ds)"

section \<open>Example cells\<close>

text \<open>
  A parser given by a table of texts and their trees. The trees below are the ones the
  parser builds for the wrapped cells
  \<open>class A {}\<close>, \<open>var x = 1;\<close>, \<open>{ var x = 1; }\<close>, \<open>f(1)\<close>, \<open>if (a) f(1)\<close>,
  \<open>var [, a] = o;\<close>, \<open>var [b, a] = o;\<close>, \<open>{ var [, a] = o; }\<close> (and the same with \<open>let\<close>),
  \<open>{ var [b, a] = o; }\<close>, \<open>import 'm'//c\<close> and \<open>import 'm';//c\<close>: the
  wrapper prefix has 42 characters, so the cell starts at offset 42, the wrapper body (a
  block) at offset 40, and \<open>wrapper_root n stmts\<close> is the tree of a wrapped text of length
  \<open>n\<close> whose cell has the statements \<open>stmts\<close>. A comment is no node of the tree, and a
  statement without a semicolon ends where its last token ends.
\<close>

definition parse_table :: "(string \<times> node) list \<Rightarrow> string \<Rightarrow> node option" where
  "parse_table table src = map_of table src"

definition wrapper_params :: "node list" where
  "wrapper_params =
     [Identifier 8 16 ''__global'', Identifier 18 26 ''__import'', Identifier 28 35 ''console'']"

definition wrapper_root :: "nat \<Rightarrow> node list \<Rightarrow> node" where
  "wrapper_root n stmts =
     Program 0 n [ExpressionStatement 0 n
       (ArrowFunctionExpression 1 (n - 1) wrapper_params (BlockStatement 40 (n - 1) stmts))]"

definition class_cell :: "node list" where
  "class_cell = [ClassDeclaration 42 52 (Identifier 48 49 ''A'') None []]"

definition var_cell :: "node list" where
  "var_cell =
     [VariableDeclaration 42 52 ''var''
        [VariableDeclarator 46 51 (Identifier 46 47 ''x'') (Some (Literal 50 51))]]"

definition block_var_cell :: "node list" where
  "block_var_cell =
     [BlockStatement 42 56
        [VariableDeclaration 44 54 ''var''
           [VariableDeclarator 48 53 (Identifier 48 49 ''x'') (Some (Literal 52 53))]]]"

definition call_cell :: "node list" where
  "call_cell =
     [ExpressionStatement 42 46 (CallExpression 42 46 (Identifier 42 43 ''f'') [Literal 44 45])]"

definition if_cell :: "node list" where
  "if_cell =
     [IfStatement 42 53 (Identifier 46 47 ''a'')
        (ExpressionStatement 49 53 (CallExpression 49 53 (Identifier 49 50 ''f'') [Literal 51 52]))
        None]"

definition hole_cell :: "node list" where
  "hole_cell =
     [VariableDeclaration 42 56 ''var''
        [VariableDeclarator 46 55
           (ArrayPattern 46 51 [None, Some (Identifier 49 50 ''a'')])
           (Some (Identifier 54 55 ''o''))]]"

definition pair_cell :: "node list" where
  "pair_cell =
     [VariableDeclaration 42 57 ''var''
        [VariableDeclarator 46 56
           (ArrayPattern 46 52 [Some (Identifier 47 48 ''b''), Some (Identifier 50 51 ''a'')])
           (Some (Identifier 55 56 ''o''))]]"

definition nested_hole_cell :: "string \<Rightarrow> node list" where
  "nested_hole_cell kind =
     [BlockStatement 42 60
        [VariableDeclaration 44 58 kind
           [VariableDeclarator 48 57
              (ArrayPattern 48 53 [None, Some (Identifier 51 52 ''a'')])
              (Some (Identifier 56 57 ''o''))]]]"

definition nested_pair_cell :: "node list" where
  "nested_pair_cell =
     [BlockStatement 42 61
        [VariableDeclaration 44 59 ''var''
           [VariableDeclarator 48 58
              (ArrayPattern 48 54 [Some (Identifier 49 50 ''b''), Some (Identifier 52 53 ''a'')])
              (Some (Identifier 57 58 ''o''))]]]"

definition unterminated_import_cell :: "node list" where
  "unterminated_import_cell = [ImportDeclaration 42 52 [] (Literal 49 52)]"

definition terminated_import_cell :: "node list" where
  "terminated_import_cell = [ImportDeclaration 42 53 [] (Literal 49 52)]"

text \<open>
  Declarations for the scope pass alone, with the editor built from the text they stand
  in: \<open>{{ var x = 1; }}\<close> and \<open>{{ let x = 1; }}\<close> (the declaration at offset 3 in a block
  at offset 1, in a block at offset 0), and the declarators of
  \<open>var a = 1, b, {c, d: e} = o, [f] = p;\<close>. The value of a shorthand property is its key.
\<close>

definition nested_var :: node where
  "nested_var = VariableDeclaration 3 13 ''var''
     [VariableDeclarator 7 12 (Identifier 7 8 ''x'') (Some (Literal 11 12))]"

definition nested_let :: node where
  "nested_let = VariableDeclaration 3 13 ''let''
     [VariableDeclarator 7 12 (Identifier 7 8 ''x'') (Some (Literal 11 12))]"

definition mixed_declarators :: "node list" where
  "mixed_declarators =
     [VariableDeclarator 4 9 (Identifier 4 5 ''a'') (Some (Literal 8 9)),
      VariableDeclarator 11 12 (Identifier 11 12 ''b'') None,
      VariableDeclarator 14 27
        (ObjectPattern 14 23
           [Property 15 16 True (Identifier 15 16 ''c'') (Identifier 15 16 ''c''),
            Property 18 22 False (Identifier 18 19 ''d'') (Identifier 21 22 ''e'')])
        (Some (Identifier 26 27 ''o'')),
      VariableDeclarator 29 36
        (ArrayPattern 29 32 [Some (Identifier 30 31 ''f'')])
        (Some (Identifier 35 36 ''p''))]"

definition scope_state :: "string \<Rightarrow> node \<Rightarrow> scopeState" where
  "scope_state src b =
     \<lparr>edit = SourceEditor_new (Str src) None, body = b, translatingVariableDeclaration = False\<rparr>"

text \<open>The specifiers of \<open>import d, {a as b} from 'm';\<close>, the statement at offset 0.\<close>

definition import_specifiers :: "node list" where
  "import_specifiers =
     [ImportDefaultSpecifier 7 8 (Identifier 7 8 ''d''),
      ImportSpecifier 11 17 (Identifier 11 12 ''a'') (Identifier 16 17 ''b'')]"

section \<open>Properties of the edit index\<close>

lemma foldl_append_current:
  "foldl (\<lambda>source n. source @ current n) acc ix = acc @ concat (map current ix)"
  by (induction ix arbitrary: acc) auto

lemma get_source_concat: "get_source ed = concat (map current (index ed))"
  by (simp add: get_source_def foldl_append_current)

lemma concat_singletons: "concat (map (\<lambda>char. current (EditNode [char])) source) = source"
  by (induction source) auto

lemma get_source_set_source: "get_source (set_source source) = source"
  by (simp add: get_source_concat set_source_def comp_def concat_singletons)

lemma length_index_set_source:
  "length (index (set_source source)) = (if source = [] then 1 else length source)"
  by (simp add: set_source_def)

text \<open>
  C10. \<open>stratify\<close> returns the text the editor rendered before the call, and the rebuilt
  editor renders the same text.
\<close>

theorem stratify_preserves_text:
  "fst (stratify ed) = SourceEditor_text ed \<and>
   SourceEditor_text (snd (stratify ed)) = SourceEditor_text ed"
  by (simp add: stratify_def Let_def SourceEditor_text_def get_source_set_source)

text \<open>
  C8, as stated, fails for the empty source: the setter then builds an index of one
  (empty) edit node, so the index is longer than the source it was built from. This holds
  for the setter and for the constructor on the empty string.
\<close>

theorem index_length_empty_source:
  "length (index (set_source [])) \<noteq> length ([] :: source) \<and>
   length (index (SourceEditor_new (Str []) None)) \<noteq> length ([] :: string)"
  by (simp add: set_source_def SourceEditor_new_def convert_def)

text \<open>
  C8, amended. Whenever a source is assigned into the index (by the setter, by the
  constructor, by \<open>stratify\<close>), the index has one node per character of a non-empty source,
  and exactly one node for the empty source.
\<close>

theorem index_length:
  "length (index (set_source source)) = (if source = [] then 1 else length source) \<and>
   length (index (SourceEditor_new (Str s) file)) = (if s = [] then 1 else length s) \<and>
   length (index (snd (stratify ed))) =
     (if fst (stratify ed) = [] then 1 else length (fst (stratify ed)))"
  by (auto simp add: length_index_set_source SourceEditor_new_def stratify_def Let_def
      SourceEditor_text_def get_source_set_source convert_def)

subsection \<open>\<open>replace\<close>\<close>

lemma clear_from_spec:
  "endp \<le> length ix \<or> endp \<le> i \<Longrightarrow>
   \<exists>ix'. clear_from i endp ix = Some ix' \<and> length ix' = length ix \<and>
     (\<forall>j < length ix. ix' ! j = (if i \<le> j \<and> j < endp then EditNode [] else ix ! j))"
proof (induction i endp ix rule: clear_from.induct)
  case (1 i endp ix)
  show ?case
  proof (cases "i < endp")
    case False
    then show ?thesis by (subst clear_from.simps) auto
  next
    case True
    with "1.prems" have il: "i < length ix" by auto
    have pre: "endp \<le> length (ix[i := EditNode_clear (ix ! i)]) \<or> endp \<le> i + 1"
      using "1.prems" True by auto
    from "1.IH"[OF True il pre] obtain ix' where
      h: "clear_from (i + 1) endp (ix[i := EditNode_clear (ix ! i)]) = Some ix'"
         "length ix' = length ix"
         "\<forall>j < length ix. ix' ! j =
            (if i + 1 \<le> j \<and> j < endp then EditNode []
             else (ix[i := EditNode_clear (ix ! i)]) ! j)"
      by auto
    have "clear_from i endp ix = Some ix'"
      using True il h(1) by (subst clear_from.simps) simp
    moreover have "\<forall>j < length ix. ix' ! j = (if i \<le> j \<and> j < endp then EditNode [] else ix ! j)"
      using h(3) True il by (auto simp: EditNode_clear_def nth_list_update)
    ultimately show ?thesis using h(2) by blast
  qed
qed

text \<open>A span that ends beyond the index makes the clearing loop throw.\<close>

lemma clear_from_None:
  "i < endp \<Longrightarrow> length ix < endp \<Longrightarrow> clear_from i endp ix = None"
proof (induction i endp ix rule: clear_from.induct)
  case (1 i endp ix)
  show ?case
  proof (cases "i < length ix")
    case False
    then show ?thesis using "1.prems" by (subst clear_from.simps) simp
  next
    case True
    then have "Suc i < endp" using "1.prems" by simp
    with "1.IH"[OF "1.prems"(1) True] "1.prems"
    have "clear_from (i + 1) endp (ix[i := EditNode_clear (ix ! i)]) = None" by simp
    then show ?thesis using True "1.prems" by (subst clear_from.simps) simp
  qed
qed

lemma SourceEditor_replace_spec:
  assumes "start < length (index ed)" "endp \<le> length (index ed) \<or> endp \<le> start + 1"
  shows "\<exists>ed'. SourceEditor_replace start endp str ed = Some ed' \<and>
           length (index ed') = length (index ed) \<and>
           (\<forall>j < length (index ed). index ed' ! j =
              (if j = start then EditNode (convert str None)
               else if start < j \<and> j < endp then EditNode [] else index ed ! j))"
proof -
  let ?ix = "(index ed)[start := EditNode_replace str (index ed ! start)]"
  from assms(2) have "endp \<le> length ?ix \<or> endp \<le> start + 1" by simp
  from clear_from_spec[OF this] obtain ix' where
    h: "clear_from (start + 1) endp ?ix = Some ix'" "length ix' = length ?ix"
       "\<forall>j < length ?ix. ix' ! j = (if start + 1 \<le> j \<and> j < endp then EditNode [] else ?ix ! j)"
    by blast
  have "SourceEditor_replace start endp str ed = Some (SourceEditor ix')"
    using assms(1) h(1) by (simp add: SourceEditor_replace_def)
  moreover have "\<forall>j < length (index ed). ix' ! j =
              (if j = start then EditNode (convert str None)
               else if start < j \<and> j < endp then EditNode [] else index ed ! j)"
    using h(3) assms(1) by (auto simp: EditNode_replace_def nth_list_update)
  ultimately show ?thesis using h(2) by simp
qed

text \<open>
  C7, as stated, fails for an empty span. In the editor built from \<open>wxyz\<close>,
  \<open>replace(1, 1, "ab")\<close> returns normally and overwrites the node at position 1, which
  lies at the end of the span \<open>[1, 1)\<close>: the editor then renders \<open>wabyz\<close>. And
  \<open>replace(4, 4, "ab")\<close> throws.
\<close>

theorem replace_empty_span:
  "SourceEditor_replace 1 1 (Str ''ab'') (SourceEditor_new (Str ''wxyz'') None) \<noteq> None \<and>
   index (the (SourceEditor_replace 1 1 (Str ''ab'') (SourceEditor_new (Str ''wxyz'') None))) ! 1
     \<noteq> index (SourceEditor_new (Str ''wxyz'') None) ! 1 \<and>
   SourceEditor_text (SourceEditor_new (Str ''wxyz'') None) = ''wxyz'' \<and>
   map_option SourceEditor_text
     (SourceEditor_replace 1 1 (Str ''ab'') (SourceEditor_new (Str ''wxyz'') None)) = Some ''wabyz'' \<and>
   SourceEditor_replace 4 4 (Str ''ab'') (SourceEditor_new (Str ''wxyz'') None) = None"
  by (simp add: SourceEditor_replace_def SourceEditor_new_def set_source_def convert_def
      EditNode_replace_def clear_from.simps SourceEditor_text_def get_source_def)

text \<open>
  C7, amended. For \<open>start\<close> inside the index and \<open>end\<close> not beyond it, \<open>replace\<close> returns
  normally with an index of the same length in which the node at \<open>start\<close> holds the
  replacement, every node strictly between \<open>start\<close> and \<open>end\<close> is empty, and every other
  node before \<open>start\<close> or at or after \<open>end\<close> is the one it was. For a span with
  \<open>start < end\<close> these are all the nodes outside the span; for an empty span the node at
  \<open>start\<close> is overwritten although it lies at the end of the span.
\<close>

theorem replace_span:
  assumes "start < length (index ed)" "endp \<le> length (index ed)"
  shows "\<exists>ed'. SourceEditor_replace start endp str ed = Some ed' \<and>
           length (index ed') = length (index ed) \<and>
           current (index ed' ! start) = convert str None \<and>
           (\<forall>i. start < i \<and> i < endp \<longrightarrow> current (index ed' ! i) = []) \<and>
           (\<forall>i < length (index ed). i \<noteq> start \<and> (i < start \<or> endp \<le> i) \<longrightarrow>
              index ed' ! i = index ed ! i)"
proof -
  from SourceEditor_replace_spec[OF assms(1), of endp str] assms(2) obtain ed' where
    h: "SourceEditor_replace start endp str ed = Some ed'"
       "length (index ed') = length (index ed)"
       "\<forall>j < length (index ed). index ed' ! j =
              (if j = start then EditNode (convert str None)
               else if start < j \<and> j < endp then EditNode [] else index ed ! j)"
    by blast
  show ?thesis using h assms by auto
qed

text \<open>
  C7, witness: the span \<open>[1, 3)\<close> and the empty span \<open>[1, 1)\<close> of the editor built from
  \<open>wxyz\<close>.
\<close>

theorem replace_span_witness:
  "(1::nat) < length (index (SourceEditor_new (Str ''wxyz'') None)) \<and>
   3 \<le> length (index (SourceEditor_new (Str ''wxyz'') None)) \<and>
   (\<exists>ed'. SourceEditor_replace 1 3 (Str ''ab'') (SourceEditor_new (Str ''wxyz'') None) = Some ed' \<and>
      length (index ed') = length (index (SourceEditor_new (Str ''wxyz'') None)) \<and>
      current (index ed' ! 1) = convert (Str ''ab'') None \<and>
      (\<forall>i. 1 < i \<and> i < 3 \<longrightarrow> current (index ed' ! i) = []) \<and>
      (\<forall>i < length (index (SourceEditor_new (Str ''wxyz'') None)).
          i \<noteq> 1 \<and> (i < 1 \<or> 3 \<le> i) \<longrightarrow>
          index ed' ! i = index (SourceEditor_new (Str ''wxyz'') None) ! i)) \<and>
   (\<exists>ed'. SourceEditor_replace 1 1 (Str ''ab'') (SourceEditor_new (Str ''wxyz'') None) = Some ed' \<and>
      current (index ed' ! 1) = convert (Str ''ab'') None \<and>
      (\<forall>i < length (index (SourceEditor_new (Str ''wxyz'') None)).
          i \<noteq> 1 \<and> (i < 1 \<or> 1 \<le> i) \<longrightarrow>
          index ed' ! i = index (SourceEditor_new (Str ''wxyz'') None) ! i))"
proof -
  let ?ed = "SourceEditor_new (Str ''wxyz'') None"
  have a: "(1::nat) < length (index ?ed)"
    by (simp add: SourceEditor_new_def set_source_def convert_def)
  have b: "3 \<le> length (index ?ed)"
    by (simp add: SourceEditor_new_def set_source_def convert_def)
  have c: "1 \<le> length (index ?ed)"
    by (simp add: SourceEditor_new_def set_source_def convert_def)
  from replace_span[OF a c, of "Str ''ab''"] obtain ed' where
    h: "SourceEditor_replace 1 1 (Str ''ab'') ?ed = Some ed'"
       "current (index ed' ! 1) = convert (Str ''ab'') None"
       "\<forall>i < length (index ?ed). i \<noteq> 1 \<and> (i < 1 \<or> 1 \<le> i) \<longrightarrow> index ed' ! i = index ?ed ! i"
    by blast
  then have d: "\<exists>ed'. SourceEditor_replace 1 1 (Str ''ab'') ?ed = Some ed' \<and>
      current (index ed' ! 1) = convert (Str ''ab'') None \<and>
      (\<forall>i < length (index ?ed). i \<noteq> 1 \<and> (i < 1 \<or> 1 \<le> i) \<longrightarrow> index ed' ! i = index ?ed ! i)"
    by blast
  show ?thesis by (rule conjI[OF a conjI[OF b conjI[OF replace_span[OF a b] d]]])
qed

section \<open>Properties of the softmax front-end\<close>

text \<open>
  C9, as stated, fails: on a tensor of rank 2 the axis argument \<open>1\<close> denotes the final
  axis, and the request is rejected all the same.
\<close>

theorem softmax_rejected_final_axis:
  "final_axis \<lparr>shape = [2, 3]\<rparr> 1 \<and>
   softmax (\<lambda>t a. Inr t :: unit + tensor) (\<lambda>t s. Inr t) \<lparr>shape = [2, 3]\<rparr> (Some 1)
     = Inl (Error ''Softmax along a non-last axis is not yet supported.'')"
  by (simp add: final_axis_def denotes_axis_def normalized_axis_def rank_def softmax_def
      softmaxHelper_def)

text \<open>
  C9, amended. \<open>softmax\<close> is rejected with the descriptive error exactly when an axis
  argument is given and differs from \<open>-1\<close>. With the axis omitted or \<open>-1\<close> the request goes
  to the op: directly for a tensor of rank 2, and otherwise on the tensor reshaped to
  \<open>[-1, numClasses]\<close>, the result being reshaped back.
\<close>

theorem softmax_rejection:
  "((softmax ops_softmax reshape t axis
       = Inl (Error ''Softmax along a non-last axis is not yet supported.''))
     \<longleftrightarrow> (axis \<noteq> None \<and> axis \<noteq> Some (- 1))) \<and>
   (axis = None \<or> axis = Some (- 1) \<longrightarrow> rank t = 2 \<longrightarrow>
      softmax ops_softmax reshape t axis = op_result (ops_softmax t (Some (- 1)))) \<and>
   (axis = None \<or> axis = Some (- 1) \<longrightarrow> rank t \<noteq> 2 \<longrightarrow>
      softmax ops_softmax reshape t axis =
        (case reshape t [Some (- 1), if rank t = 0 then None else Some (shape t ! (rank t - 1))] of
           Inl x \<Rightarrow> Inl (OpError x)
         | Inr t2 \<Rightarrow>
             (case ops_softmax t2 None of
                Inl x \<Rightarrow> Inl (OpError x)
              | Inr result \<Rightarrow> op_result (reshape result (map Some (shape t))))))"
  by (auto simp: softmax_def softmaxHelper_def op_result_def Let_def
      split: sum.splits option.splits)

text \<open>
  C9, witness: a rank-2 tensor with axis \<open>-1\<close> reaches the op, and a rank-3 tensor is
  reshaped around the call.
\<close>

theorem softmax_rejection_witness:
  "rank \<lparr>shape = [2, 3]\<rparr> = 2 \<and>
   softmax (\<lambda>t a. Inr (t\<lparr>shape := 7 # shape t\<rparr>) :: unit + tensor) (\<lambda>t s. Inr t)
     \<lparr>shape = [2, 3]\<rparr> (Some (- 1)) = Inr \<lparr>shape = [7, 2, 3]\<rparr> \<and>
   rank \<lparr>shape = [2, 3, 4]\<rparr> \<noteq> 2 \<and>
   softmax (\<lambda>t a. Inr (t\<lparr>shape := 7 # shape t\<rparr>) :: unit + tensor)
     (\<lambda>t s. Inr (t\<lparr>shape := map the s\<rparr>)) \<lparr>shape = [2, 3, 4]\<rparr> None
     = Inr \<lparr>shape = [2, 3, 4]\<rparr>"
  using softmax_rejection [of "\<lambda>t a. Inr (t\<lparr>shape := 7 # shape t\<rparr>) :: unit + tensor"
      "\<lambda>t s. Inr t" "\<lparr>shape = [2, 3]\<rparr>" "Some (- 1)"]
    softmax_rejection [of "\<lambda>t a. Inr (t\<lparr>shape := 7 # shape t\<rparr>) :: unit + tensor"
      "\<lambda>t s. Inr (t\<lparr>shape := map the s\<rparr>)" "\<lparr>shape = [2, 3, 4]\<rparr>" None]
  by (simp add: rank_def op_result_def)

section \<open>Properties of spans\<close>

lemma text_span: "SourceEditor_text ed = span_text ed 0 (length (index ed))"
  by (simp add: SourceEditor_text_def span_text_def get_source_concat node_text_def[abs_def] map_concat comp_def)

lemma span_split:
  assumes "a \<le> b" "b \<le> c"
  shows "span_text ed a c = span_text ed a b @ span_text ed b c"
proof -
  have "c - a = (b - a) + (c - b)" using assms by simp
  then have "take (c - a) (drop a (index ed)) =
        take (b - a) (drop a (index ed)) @ take (c - b) (drop (b - a) (drop a (index ed)))"
    by (simp only: take_add)
  moreover have "drop (b - a) (drop a (index ed)) = drop b (index ed)" using assms by simp
  ultimately show ?thesis by (simp add: span_text_def)
qed

lemma span_empty [simp]: "span_text ed a a = []"
  by (simp add: span_text_def)

lemma span_cong:
  assumes "length (index ed') = length (index ed)"
    and "\<And>i. a \<le> i \<Longrightarrow> i < b \<Longrightarrow> i < length (index ed) \<Longrightarrow> index ed' ! i = index ed ! i"
  shows "span_text ed' a b = span_text ed a b"
proof -
  have "take (b - a) (drop a (index ed')) = take (b - a) (drop a (index ed))"
  proof (rule nth_equalityI)
    show "length (take (b - a) (drop a (index ed'))) = length (take (b - a) (drop a (index ed)))"
      using assms(1) by simp
  next
    fix i assume "i < length (take (b - a) (drop a (index ed')))"
    then have i: "i < b - a" "a + i < length (index ed)" using assms(1) by auto
    then show "take (b - a) (drop a (index ed')) ! i = take (b - a) (drop a (index ed)) ! i"
      using assms(1) assms(2)[of "a + i"] by simp
  qed
  then show ?thesis by (simp add: span_text_def)
qed

lemma span_single:
  "a < length (index ed) \<Longrightarrow> span_text ed a (Suc a) = node_text (index ed ! a)"
  by (simp add: span_text_def take_Suc_conv_app_nth[of 0, simplified] hd_drop_conv_nth take_Suc)

lemma span_first:
  assumes "a < b" "a < length (index ed)"
  shows "span_text ed a b = node_text (index ed ! a) @ span_text ed (Suc a) b"
  using span_split[of a "Suc a" b ed] assms by (simp add: span_single)

lemma span_last:
  assumes "a < b" "b \<le> length (index ed)"
  shows "span_text ed a b = span_text ed a (b - 1) @ node_text (index ed ! (b - 1))"
  using span_split[of a "b - 1" b ed] span_single[of "b - 1" ed] assms by simp

lemma span_cleared:
  assumes "\<And>i. a \<le> i \<Longrightarrow> i < b \<Longrightarrow> i < length (index ed) \<Longrightarrow> current (index ed ! i) = []"
  shows "span_text ed a b = []"
proof -
  have "\<forall>n \<in> set (take (b - a) (drop a (index ed))). node_text n = []"
  proof
    fix n assume "n \<in> set (take (b - a) (drop a (index ed)))"
    then obtain i where i: "i < length (take (b - a) (drop a (index ed)))"
      "n = take (b - a) (drop a (index ed)) ! i"
      by (auto simp: in_set_conv_nth)
    then have "i < b - a" "a + i < length (index ed)" by auto
    then show "node_text n = []" using i assms[of "a + i"] by (simp add: node_text_def)
  qed
  then show ?thesis by (simp add: span_text_def)
qed

lemma text_convert [simp]: "map char (convert (Str t) file) = t"
  by (simp add: convert_def comp_def case_prod_unfold map_fst_zip)

lemma same_outside_span:
  assumes "same_outside ed ed' a b" "d \<le> a \<or> b \<le> c"
  shows "span_text ed' c d = span_text ed c d"
  using assms by (intro span_cong) (auto simp: same_outside_def)

lemma same_outside_refl [simp]: "same_outside ed ed a b"
  by (simp add: same_outside_def)

lemma same_outside_trans:
  "same_outside ed ed' a b \<Longrightarrow> same_outside ed' ed'' a b \<Longrightarrow> same_outside ed ed'' a b"
  by (auto simp: same_outside_def)

lemma same_outside_mono:
  "same_outside ed ed' a b \<Longrightarrow> a' \<le> a \<Longrightarrow> b \<le> b' \<Longrightarrow> same_outside ed ed' a' b'"
  by (auto simp: same_outside_def)

lemma replace_text:
  assumes "start < endp" "endp \<le> length (index ed)"
  shows "\<exists>ed'. SourceEditor_replace start endp (Str t) ed = Some ed' \<and>
           span_text ed' start endp = t \<and> same_outside ed ed' start endp"
proof -
  from assms have "start < length (index ed)" by simp
  from SourceEditor_replace_spec[OF this, of endp "Str t"] assms(2) obtain ed' where
    h: "SourceEditor_replace start endp (Str t) ed = Some ed'"
       "length (index ed') = length (index ed)"
       "\<forall>j < length (index ed). index ed' ! j =
              (if j = start then EditNode (convert (Str t) None)
               else if start < j \<and> j < endp then EditNode [] else index ed ! j)"
    by blast
  have "span_text ed' start endp = node_text (index ed' ! start) @ span_text ed' (Suc start) endp"
    using assms h(2) by (intro span_first) auto
  moreover have "span_text ed' (Suc start) endp = []"
    using h(2) h(3) by (intro span_cleared) auto
  moreover have "node_text (index ed' ! start) = t"
    using h(3) assms by (simp add: node_text_def)
  ultimately have "span_text ed' start endp = t" by simp
  moreover have "same_outside ed ed' start endp"
    using h(2) h(3) assms by (auto simp: same_outside_def)
  ultimately show ?thesis using h(1) by blast
qed

lemma replace_text_split:
  assumes "start < m" "m \<le> endp" "endp \<le> length (index ed)"
    and "SourceEditor_replace start endp (Str t) ed = Some ed'"
  shows "span_text ed' start m = t \<and> span_text ed' m endp = []"
proof -
  from assms have "start < length (index ed)" by simp
  from SourceEditor_replace_spec[OF this, of endp "Str t"] assms(3,4) have
    h: "length (index ed') = length (index ed)"
       "\<forall>j < length (index ed). index ed' ! j =
              (if j = start then EditNode (convert (Str t) None)
               else if start < j \<and> j < endp then EditNode [] else index ed ! j)"
    by auto
  have "span_text ed' start m = node_text (index ed' ! start) @ span_text ed' (Suc start) m"
    using assms h(1) by (intro span_first) auto
  moreover have "span_text ed' (Suc start) m = []"
    using h assms by (intro span_cleared) auto
  moreover have "node_text (index ed' ! start) = t"
    using h(2) assms by (simp add: node_text_def)
  moreover have "span_text ed' m endp = []"
    using h assms by (intro span_cleared) auto
  ultimately show ?thesis by simp
qed

lemma prepend_text:
  assumes "node_start n < b" "b \<le> length (index ed)"
  shows "\<exists>ed'. SourceEditor_prepend n (Str t) ed = Some ed' \<and>
           span_text ed' (node_start n) b = t @ span_text ed (node_start n) b \<and>
           same_outside ed ed' (node_start n) (Suc (node_start n))"
proof -
  let ?s = "node_start n"
  let ?ed' = "SourceEditor ((index ed)[?s := EditNode_prepend (Str t) (index ed ! ?s)])"
  have e: "SourceEditor_prepend n (Str t) ed = Some ?ed'"
    using assms by (simp add: SourceEditor_prepend_def Let_def)
  have so: "same_outside ed ?ed' ?s (Suc ?s)" by (auto simp: same_outside_def)
  have "span_text ?ed' ?s b = node_text (index ?ed' ! ?s) @ span_text ?ed' (Suc ?s) b"
    using assms by (intro span_first) auto
  moreover have "span_text ?ed' (Suc ?s) b = span_text ed (Suc ?s) b"
    using so by (intro same_outside_span[of ed ?ed' ?s "Suc ?s"]) auto
  moreover have "node_text (index ?ed' ! ?s) = t @ node_text (index ed ! ?s)"
    using assms by (simp add: node_text_def EditNode_prepend_def)
  moreover have "span_text ed ?s b = node_text (index ed ! ?s) @ span_text ed (Suc ?s) b"
    using assms by (intro span_first) auto
  ultimately show ?thesis using e so by simp
qed

lemma append_text:
  assumes "a < node_end n" "node_end n \<le> length (index ed)"
  shows "\<exists>ed'. SourceEditor_append n (Str t) ed = Some ed' \<and>
           span_text ed' a (node_end n) = span_text ed a (node_end n) @ t \<and>
           same_outside ed ed' (node_end n - 1) (node_end n)"
proof -
  let ?e = "node_end n"
  let ?ed' = "SourceEditor ((index ed)[?e - 1 := EditNode_append (Str t) (index ed ! (?e - 1))])"
  have e: "SourceEditor_append n (Str t) ed = Some ?ed'"
    using assms by (simp add: SourceEditor_append_def Let_def)
  have so: "same_outside ed ?ed' (?e - 1) ?e"
    using assms by (auto simp: same_outside_def nth_list_update)
  have "span_text ?ed' a ?e = span_text ?ed' a (?e - 1) @ node_text (index ?ed' ! (?e - 1))"
    using assms by (intro span_last) auto
  moreover have "span_text ?ed' a (?e - 1) = span_text ed a (?e - 1)"
    using so by (intro same_outside_span[of ed ?ed' "?e - 1" ?e]) auto
  moreover have "node_text (index ?ed' ! (?e - 1)) = node_text (index ed ! (?e - 1)) @ t"
    using assms by (simp add: node_text_def EditNode_append_def)
  moreover have "span_text ed a ?e = span_text ed a (?e - 1) @ node_text (index ed ! (?e - 1))"
    using assms by (intro span_last) auto
  ultimately show ?thesis using e so by simp
qed

section \<open>The trailing expression\<close>

lemma same_outside_length: "same_outside ed ed' a b \<Longrightarrow> length (index ed') = length (index ed)"
  by (simp add: same_outside_def)

lemma return_last_text:
  assumes "s < node_end x" "node_end x \<le> length (index ed)"
  shows "\<exists>ed'. return_last (ExpressionStatement s e x) ed = Some ed' \<and>
           SourceEditor_text ed' =
             span_text ed 0 s @ ''return ('' @ span_text ed s (node_end x) @ '')'' @
             span_text ed (node_end x) (length (index ed))"
proof -
  let ?E = "node_end x"
  let ?L = "length (index ed)"
  from prepend_text[of "ExpressionStatement s e x" ?E ed "''return (''"] assms obtain ed1 where
    h1: "SourceEditor_prepend (ExpressionStatement s e x) (Str ''return ('') ed = Some ed1"
        "span_text ed1 s ?E = ''return ('' @ span_text ed s ?E"
        "same_outside ed ed1 s (Suc s)"
    by auto
  have l1: "length (index ed1) = ?L" using h1(3) by (rule same_outside_length)
  from append_text[of s x ed1 "'')''"] assms l1 obtain ed2 where
    h2: "SourceEditor_append x (Str '')'') ed1 = Some ed2"
        "span_text ed2 s ?E = span_text ed1 s ?E @ '')''"
        "same_outside ed1 ed2 (?E - 1) ?E"
    by auto
  have l2: "length (index ed2) = ?L" using h2(3) l1 by (simp add: same_outside_def)
  have r: "return_last (ExpressionStatement s e x) ed = Some ed2"
    using h1(1) h2(1) by simp
  have pre: "span_text ed2 0 s = span_text ed 0 s"
  proof -
    have "span_text ed2 0 s = span_text ed1 0 s"
      using h2(3) assms by (intro same_outside_span[of ed1 ed2 "?E - 1" ?E]) auto
    also have "\<dots> = span_text ed 0 s"
      using h1(3) by (intro same_outside_span[of ed ed1 s "Suc s"]) auto
    finally show ?thesis .
  qed
  have post: "span_text ed2 ?E ?L = span_text ed ?E ?L"
  proof -
    have "span_text ed2 ?E ?L = span_text ed1 ?E ?L"
      using h2(3) by (intro same_outside_span[of ed1 ed2 "?E - 1" ?E]) auto
    also have "\<dots> = span_text ed ?E ?L"
      using h1(3) assms by (intro same_outside_span[of ed ed1 s "Suc s"]) auto
    finally show ?thesis .
  qed
  have "SourceEditor_text ed2 = span_text ed2 0 s @ span_text ed2 s ?E @ span_text ed2 ?E ?L"
    using assms l2 span_split[of 0 s ?L ed2] span_split[of s ?E ?L ed2]
    by (simp add: text_span)
  then show ?thesis using r pre post h1(2) h2(2) by simp
qed

lemma return_last_other: "\<not> is_ExpressionStatement n \<Longrightarrow> return_last n ed = Some ed"
  by (cases n) auto

text \<open>
  C5. Let the two passes of \<open>transpile\<close> leave the body \<open>b\<close> (of the second parse) and
  the editor \<open>ed\<close>, the body having a last statement. If that statement is an expression
  statement, \<open>transpile\<close> returns the text of \<open>ed\<close> with \<open>return (\<close> put in front of the
  statement and \<open>)\<close> put behind its expression; if it is any other statement,
  \<open>transpile\<close> returns the text of \<open>ed\<close> as it is.
\<close>

theorem trailing_return:
  assumes "rewrite_passes parse src = Some (b, ed)"
    and "body_statements b = Some (Some stmts)" and "stmts \<noteq> []"
  shows "(last stmts = ExpressionStatement s e x \<and> s < node_end x \<and> node_end x \<le> length (index ed) \<longrightarrow>
            transpile parse src =
              Some (span_text ed 0 s @ ''return ('' @ span_text ed s (node_end x) @ '')'' @
                    span_text ed (node_end x) (length (index ed)))) \<and>
         (\<not> is_ExpressionStatement (last stmts) \<longrightarrow>
            transpile parse src = Some (SourceEditor_text ed))"
proof (intro conjI impI)
  assume a: "last stmts = ExpressionStatement s e x \<and> s < node_end x \<and> node_end x \<le> length (index ed)"
  from return_last_text[of s x ed e] a obtain ed' where
    h: "return_last (ExpressionStatement s e x) ed = Some ed'"
       "SourceEditor_text ed' =
             span_text ed 0 s @ ''return ('' @ span_text ed s (node_end x) @ '')'' @
             span_text ed (node_end x) (length (index ed))"
    by blast
  have "return_rewrite b ed = Some ed'"
    using assms a h(1) by (simp add: return_rewrite_def)
  then show "transpile parse src =
              Some (span_text ed 0 s @ ''return ('' @ span_text ed s (node_end x) @ '')'' @
                    span_text ed (node_end x) (length (index ed)))"
    using assms(1) h(2) by (simp add: transpile_def)
next
  assume "\<not> is_ExpressionStatement (last stmts)"
  then have "return_rewrite b ed = Some ed"
    using assms by (simp add: return_rewrite_def return_last_other)
  then show "transpile parse src = Some (SourceEditor_text ed)"
    using assms(1) by (simp add: transpile_def)
qed

section \<open>Cells without imports and declarations\<close>

lemma walk_each_id:
  "(\<And>x. x \<in> set xs \<Longrightarrow> c x st = Some st) \<Longrightarrow> walk_each c xs st = Some st"
  by (induction xs) auto

lemma walk_opt_id:
  "(\<And>x. y = Some x \<Longrightarrow> c x st = Some st) \<Longrightarrow> walk_opt c y st = Some st"
  by (cases y) auto

lemma import_untouched: "untouched n \<Longrightarrow> import_c n ed = Some ed"
proof (induction n arbitrary: ed)
  case (ObjectPattern s e props)
  show ?case
    unfolding import_c.simps
  proof (rule walk_each_id)
    fix p assume p: "p \<in> set props"
    with ObjectPattern.prems obtain ps pe sh k v where pv: "p = Property ps pe sh k v" "untouched v"
      by (cases p) (auto simp: list_all_iff)
    with ObjectPattern.IH[OF p, of ed] show "(case p of Property _ _ _ _ v \<Rightarrow> import_c v ed | _ \<Rightarrow> None) = Some ed"
      by simp
  qed
next
  case (ArrayPattern s e elts)
  show ?case
    unfolding import_c.simps
  proof (rule walk_each_id)
    fix elt assume p: "elt \<in> set elts"
    show "walk_opt import_c elt ed = Some ed"
    proof (rule walk_opt_id)
      fix x assume "elt = Some x"
      with ArrayPattern.prems p ArrayPattern.IH[OF p, of x ed] show "import_c x ed = Some ed"
        by (auto simp: list_all_iff)
    qed
  qed
qed (auto simp: list_all_iff walk_each_id walk_opt_id split: option.splits)

lemma size_in_list: "x \<in> set xs \<Longrightarrow> size x < Suc (size_list size xs)"
  by (induction xs) auto

lemma size_in_option_list:
  "Some x \<in> set xs \<Longrightarrow> size x < Suc (size_list (size_option size) xs)"
  by (induction xs) auto

lemma size_neq: "size (n::node) < size m \<Longrightarrow> n \<noteq> m"
  by auto

lemma push_new_proper:
  "ancestors \<noteq> [] \<Longrightarrow> size n < size (last ancestors) \<Longrightarrow> push_new ancestors n = ancestors @ [n]"
  by (auto simp: push_new_def)

lemma parent_is_body_snoc:
  "ancestors \<noteq> [] \<Longrightarrow> parent_is_body (ancestors @ [n]) st = Some (last ancestors = body st)"
  by (cases ancestors rule: rev_cases) (auto simp: parent_is_body_def nth_append)

lemma flag_update_id:
  "\<not> translatingVariableDeclaration st \<Longrightarrow> st\<lparr>translatingVariableDeclaration := False\<rparr> = st"
  by simp

lemma scope_untouched:
  "untouched n \<Longrightarrow> \<not> translatingVariableDeclaration st \<Longrightarrow> ancestors \<noteq> [] \<Longrightarrow>
   size n < size (last ancestors) \<Longrightarrow> size n < size (body st) \<Longrightarrow>
   (last ancestors = body st \<longrightarrow> \<not> is_declaration n) \<Longrightarrow>
   scope_c ancestors n st = Some st"
proof (induction n arbitrary: ancestors st rule: measure_induct_rule[where f=size])
  case (less n)
  have nb: "n \<noteq> body st" using less.prems(5) by (rule size_neq)
  have pn: "push_new ancestors n = ancestors @ [n]"
    using less.prems by (intro push_new_proper) auto
  have child: "\<And>m. size m < size n \<Longrightarrow> untouched m \<Longrightarrow> scope_c (ancestors @ [n]) m st = Some st"
    using less.prems nb by (intro less.IH) auto
  have top: "is_declaration n \<Longrightarrow> parent_is_body (ancestors @ [n]) st = Some False"
    using less.prems nb by (simp add: parent_is_body_snoc)
  have flag: "\<not> translatingVariableDeclaration st" by (rule less.prems(2))
  have u: "untouched n" by (rule less.prems(1))
  show ?case
  proof (cases n)
    case (CallExpression s e callee args)
    have "scope_c (ancestors @ [n]) callee st = Some st"
      using u CallExpression by (intro child) auto
    moreover have "walk_each (scope_c (ancestors @ [n])) args st = Some st"
    proof (rule walk_each_id)
      fix x assume x: "x \<in> set args"
      show "scope_c (ancestors @ [n]) x st = Some st"
        using u CallExpression x size_in_list[OF x] by (intro child) (auto simp: list_all_iff)
    qed
    ultimately show ?thesis using pn unfolding CallExpression by simp
  next
    case (AssignmentExpression s e l r)
    have "scope_c (ancestors @ [n]) l st = Some st"
      using u AssignmentExpression by (intro child) auto
    moreover have "scope_c (ancestors @ [n]) r st = Some st"
      using u AssignmentExpression by (intro child) auto
    ultimately show ?thesis using pn unfolding AssignmentExpression by simp
  next
    case (ObjectPattern s e props)
    have "walk_each (\<lambda>p st. case p of Property _ _ _ _ v \<Rightarrow> scope_c (ancestors @ [n]) v st | _ \<Rightarrow> None)
             props st = Some st"
    proof (rule walk_each_id)
      fix p assume p: "p \<in> set props"
      with u ObjectPattern obtain ps pe sh k v where pv: "p = Property ps pe sh k v" "untouched v"
        by (cases p) (auto simp: list_all_iff)
      have "scope_c (ancestors @ [n]) v st = Some st"
        using ObjectPattern pv size_in_list[OF p] by (intro child) auto
      then show "(case p of Property _ _ _ _ v \<Rightarrow> scope_c (ancestors @ [n]) v st | _ \<Rightarrow> None) = Some st"
        using pv by simp
    qed
    then show ?thesis using pn flag unfolding ObjectPattern by (simp add: ObjectPattern_edits_def)
  next
    case (Property s e sh k v)
    have "scope_c (ancestors @ [n]) v st = Some st"
      using u Property by (intro child) auto
    then show ?thesis using pn unfolding Property by simp
  next
    case (ArrayPattern s e elts)
    have "walk_each (walk_opt (scope_c (ancestors @ [n]))) elts st = Some st"
    proof (rule walk_each_id)
      fix elt assume p: "elt \<in> set elts"
      show "walk_opt (scope_c (ancestors @ [n])) elt st = Some st"
      proof (rule walk_opt_id)
        fix x assume x: "elt = Some x"
        show "scope_c (ancestors @ [n]) x st = Some st"
          using u ArrayPattern p x size_in_option_list[of x elts]
          by (intro child) (auto simp: list_all_iff)
      qed
    qed
    then show ?thesis using pn flag unfolding ArrayPattern by (simp add: ArrayPattern_edits_def)
  next
    case (ExpressionStatement s e x)
    have "scope_c (ancestors @ [n]) x st = Some st"
      using u ExpressionStatement by (intro child) auto
    then show ?thesis using pn unfolding ExpressionStatement by simp
  next
    case (BlockStatement s e stmts)
    have "walk_each (scope_c (ancestors @ [n])) stmts st = Some st"
    proof (rule walk_each_id)
      fix x assume x: "x \<in> set stmts"
      show "scope_c (ancestors @ [n]) x st = Some st"
        using u BlockStatement x size_in_list[OF x] by (intro child) (auto simp: list_all_iff)
    qed
    then show ?thesis using pn unfolding BlockStatement by simp
  next
    case (Program s e stmts)
    have "walk_each (scope_c (ancestors @ [n])) stmts st = Some st"
    proof (rule walk_each_id)
      fix x assume x: "x \<in> set stmts"
      show "scope_c (ancestors @ [n]) x st = Some st"
        using u Program x size_in_list[OF x] by (intro child) (auto simp: list_all_iff)
    qed
    then show ?thesis using pn unfolding Program by simp
  next
    case (IfStatement s e test consequent alternate)
    have "scope_c (ancestors @ [n]) test st = Some st"
      using u IfStatement by (intro child) auto
    moreover have "scope_c (ancestors @ [n]) consequent st = Some st"
      using u IfStatement by (intro child) auto
    moreover have "walk_opt (scope_c (ancestors @ [n])) alternate st = Some st"
    proof (rule walk_opt_id)
      fix x assume x: "alternate = Some x"
      show "scope_c (ancestors @ [n]) x st = Some st"
        using u IfStatement x by (intro child) auto
    qed
    ultimately show ?thesis using pn unfolding IfStatement by simp
  next
    case (VariableDeclaration s e kind decls)
    have k: "kind \<noteq> ''var''" using u VariableDeclaration by simp
    have "walk_each (scope_c (ancestors @ [n])) decls st = Some st"
    proof (rule walk_each_id)
      fix x assume x: "x \<in> set decls"
      show "scope_c (ancestors @ [n]) x st = Some st"
        using u VariableDeclaration x size_in_list[OF x] by (intro child) (auto simp: list_all_iff)
    qed
    moreover have "parent_is_body (ancestors @ [n]) st = Some False"
      using VariableDeclaration by (intro top) simp
    ultimately show ?thesis using pn k flag unfolding VariableDeclaration
      by (simp add: flag_update_id)
  next
    case (VariableDeclarator s e i init)
    have "scope_c (ancestors @ [n]) i st = Some st"
      using u VariableDeclarator by (intro child) auto
    moreover have "walk_opt (scope_c (ancestors @ [n])) init st = Some st"
    proof (rule walk_opt_id)
      fix x assume x: "init = Some x"
      show "scope_c (ancestors @ [n]) x st = Some st"
        using u VariableDeclarator x by (intro child) auto
    qed
    ultimately show ?thesis using pn flag unfolding VariableDeclarator
      by (simp add: VariableDeclarator_edits_def)
  next
    case (ClassDeclaration s e i super items)
    have "scope_c (ancestors @ [n]) i st = Some st"
      using u ClassDeclaration by (intro child) auto
    moreover have "walk_opt (scope_c (ancestors @ [n])) super st = Some st"
    proof (rule walk_opt_id)
      fix x assume x: "super = Some x"
      show "scope_c (ancestors @ [n]) x st = Some st"
        using u ClassDeclaration x by (intro child) auto
    qed
    moreover have "walk_each (scope_c (ancestors @ [n])) items st = Some st"
    proof (rule walk_each_id)
      fix x assume x: "x \<in> set items"
      show "scope_c (ancestors @ [n]) x st = Some st"
        using u ClassDeclaration x size_in_list[OF x] by (intro child) (auto simp: list_all_iff)
    qed
    moreover have "parent_is_body (ancestors @ [n]) st = Some False"
      using ClassDeclaration by (intro top) simp
    ultimately show ?thesis using pn unfolding ClassDeclaration by simp
  qed (use u in auto)
qed

lemma wrap_async_nonempty: "wrap_async src \<noteq> []"
  by (simp add: wrap_async_def)

lemma index_pristine:
  "w \<noteq> [] \<Longrightarrow> index (SourceEditor_new (Str w) file) = map (\<lambda>c. EditNode [c]) (convert (Str w) file)"
  by (simp add: SourceEditor_new_def set_source_def convert_def)

lemma length_pristine:
  "w \<noteq> [] \<Longrightarrow> length (index (SourceEditor_new (Str w) file)) = length w"
  by (simp add: index_pristine convert_def)

lemma concat_map_singleton: "concat (map (\<lambda>c. [f c]) xs) = map f xs"
  by (induction xs) auto

lemma span_pristine:
  assumes "w \<noteq> []"
  shows "span_text (SourceEditor_new (Str w) file) a b = take (b - a) (drop a w)"
proof -
  have "span_text (SourceEditor_new (Str w) file) a b =
          concat (map (\<lambda>c. [char c]) (take (b - a) (drop a (convert (Str w) file))))"
    using assms by (simp add: span_text_def index_pristine take_map drop_map comp_def node_text_def)
  also have "\<dots> = map char (take (b - a) (drop a (convert (Str w) file)))"
    by (rule concat_map_singleton)
  also have "\<dots> = take (b - a) (drop a w)"
    by (simp add: take_map[symmetric] drop_map[symmetric] del: take_map drop_map)
  finally show ?thesis .
qed

lemma text_pristine: "SourceEditor_text (SourceEditor_new (Str w) file) = w"
  by (simp add: SourceEditor_text_def SourceEditor_new_def get_source_set_source)

lemma stratify_pristine:
  "stratify (SourceEditor_new (Str w) file) = (w, SourceEditor_new (Str w) file)"
  by (simp add: stratify_def Let_def SourceEditor_new_def get_source_set_source SourceEditor_text_def)

lemma untouched_not_declaration: "top_untouched n \<Longrightarrow> untouched n"
  by (simp add: top_untouched_def)

lemma rewrite_passes_untouched:
  assumes p: "parse (wrap_async src) =
      Some (Program s e (ExpressionStatement s1 e1
              (ArrowFunctionExpression s2 e2 params (BlockStatement bs be stmts)) # rest))"
    and u: "list_all top_untouched stmts"
  shows "rewrite_passes parse src =
           Some (BlockStatement bs be stmts, SourceEditor_new (Str (wrap_async src)) None)"
proof -
  let ?b = "BlockStatement bs be stmts"
  let ?ed = "SourceEditor_new (Str (wrap_async src)) None"
  let ?st = "\<lparr>edit = ?ed, body = ?b, translatingVariableDeclaration = False\<rparr>"
  let ?root = "Program s e (ExpressionStatement s1 e1
              (ArrowFunctionExpression s2 e2 params (BlockStatement bs be stmts)) # rest)"
  have pa: "parseAsyncWrapped parse (wrap_async src) = Some (?b, ?root)"
    using p by (simp add: parseAsyncWrapped_def)
  have "untouched ?b" using u by (simp add: list_all_iff top_untouched_def)
  then have i: "import_c ?b ?ed = Some ?ed" by (rule import_untouched)
  have w: "walk_each (scope_c [?b]) stmts ?st = Some ?st"
  proof (rule walk_each_id)
    fix x assume x: "x \<in> set stmts"
    then have "top_untouched x" using u by (simp add: list_all_iff)
    then show "scope_c [?b] x ?st = Some ?st"
      using size_in_list[OF x] by (intro scope_untouched) (auto simp: top_untouched_def)
  qed
  have sc: "scope_c [] ?b ?st = Some ?st"
    using w by (simp add: push_new_def)
  show ?thesis
    using pa i sc by (simp add: rewrite_passes_def Let_def stratify_pristine)
qed

text \<open>
  C6, amended. If the walks reach no import, no \<open>function\<close> declaration and no \<open>var\<close>
  declaration in the cell, and no \<open>let\<close>, \<open>const\<close> or \<open>class\<close> declaration stands directly
  in the wrapper body, then \<open>transpile\<close> returns the wrapped input, but for the rewrite of
  a final expression statement into a \<open>return\<close>.
\<close>

theorem transpile_untouched:
  assumes p: "parse (wrap_async src) =
      Some (Program s e (ExpressionStatement s1 e1
              (ArrowFunctionExpression s2 e2 params (BlockStatement bs be stmts)) # rest))"
    and u: "list_all top_untouched stmts"
  shows "(stmts = [] \<or> \<not> is_ExpressionStatement (last stmts) \<longrightarrow>
            transpile parse src = Some (wrap_async src)) \<and>
         (stmts \<noteq> [] \<and> last stmts = ExpressionStatement ls le x \<and> ls < node_end x \<and>
          node_end x \<le> length (wrap_async src) \<longrightarrow>
            transpile parse src =
              Some (take ls (wrap_async src) @ ''return ('' @
                    take (node_end x - ls) (drop ls (wrap_async src)) @ '')'' @
                    drop (node_end x) (wrap_async src)))"
proof (intro conjI impI)
  let ?w = "wrap_async src"
  let ?ed = "SourceEditor_new (Str ?w) None"
  note rp = rewrite_passes_untouched[of parse src, OF p u]
  {
    assume "stmts = [] \<or> \<not> is_ExpressionStatement (last stmts)"
    then have "return_rewrite (BlockStatement bs be stmts) ?ed = Some ?ed"
      by (auto simp: return_rewrite_def return_last_other)
    then show "transpile parse src = Some ?w"
      using rp by (simp add: transpile_def text_pristine)
  }
  {
    assume a: "stmts \<noteq> [] \<and> last stmts = ExpressionStatement ls le x \<and> ls < node_end x \<and>
          node_end x \<le> length ?w"
    have len: "length (index ?ed) = length ?w"
      by (rule length_pristine[OF wrap_async_nonempty])
    from return_last_text[of ls x ?ed le] a len obtain ed' where
      h: "return_last (ExpressionStatement ls le x) ?ed = Some ed'"
         "SourceEditor_text ed' =
             span_text ?ed 0 ls @ ''return ('' @ span_text ?ed ls (node_end x) @ '')'' @
             span_text ?ed (node_end x) (length (index ?ed))"
      by auto
    have "return_rewrite (BlockStatement bs be stmts) ?ed = Some ed'"
      using a h(1) by (simp add: return_rewrite_def)
    then show "transpile parse src =
              Some (take ls ?w @ ''return ('' @ take (node_end x - ls) (drop ls ?w) @ '')'' @
                    drop (node_end x) ?w)"
      using rp h(2) len by (simp add: transpile_def span_pristine[OF wrap_async_nonempty])
  }
qed

section \<open>Variable declarations in the scope pass\<close>

lemma spaced_regions_bounds:
  "spaced_regions p L ds \<Longrightarrow> d \<in> set ds \<Longrightarrow>
   p < node_start d \<and> node_start d < node_end d \<and> node_end d \<le> L"
proof (induction ds arbitrary: p)
  case Nil
  then show ?case by simp
next
  case (Cons a ds)
  have le: "spaced_regions q L ds \<Longrightarrow> q \<le> L" for q
  proof (induction ds arbitrary: q)
    case Nil then show ?case by simp
  next
    case (Cons b bs)
    from Cons.prems have "node_end b \<le> L" by (intro Cons.IH) simp
    with Cons.prems show ?case by simp
  qed
  show ?case
  proof (cases "d = a")
    case True
    then show ?thesis using Cons.prems le[of "node_end a"] by simp
  next
    case False
    then have "d \<in> set ds" using Cons.prems by simp
    from Cons.IH[OF _ this, of "node_end a"] Cons.prems show ?thesis by auto
  qed
qed

lemma spaced_regions_le: "spaced_regions p L ds \<Longrightarrow> p \<le> L"
proof (induction ds arbitrary: p)
  case Nil then show ?case by simp
next
  case (Cons b bs)
  from Cons.prems have "node_end b \<le> L" by (intro Cons.IH) simp
  with Cons.prems show ?case by simp
qed

lemma spaced_regions_last:
  "spaced_regions p L ds \<Longrightarrow> d \<in> set ds \<Longrightarrow> d \<noteq> last ds \<Longrightarrow>
   node_end d < node_start (last ds)"
proof (induction ds arbitrary: p)
  case Nil
  then show ?case by simp
next
  case (Cons a ds)
  show ?case
  proof (cases "ds = []")
    case True
    then show ?thesis using Cons.prems by simp
  next
    case False
    then have l: "last (a # ds) = last ds" by simp
    have lin: "last ds \<in> set ds" using False by simp
    show ?thesis
    proof (cases "d = a")
      case True
      from spaced_regions_bounds[OF _ lin, of "node_end a" L] Cons.prems
      show ?thesis using True l by simp
    next
      case False
      then have "d \<in> set ds" using Cons.prems by simp
      from Cons.IH[OF _ this, of "node_end a"] Cons.prems l show ?thesis by simp
    qed
  qed
qed

lemma walk_each_regions:
  "(\<forall>d \<in> set ds. region_step f F d) \<Longrightarrow> spaced_regions p (length (index ed)) ds \<Longrightarrow>
   \<exists>ed'. walk_each f ds ed = Some ed' \<and> length (index ed') = length (index ed) \<and>
           (\<forall>d \<in> set ds. span_text ed' (node_start d) (node_end d) = F d ed) \<and>
           (\<forall>i < length (index ed). (\<forall>d \<in> set ds. i < node_start d \<or> node_end d \<le> i) \<longrightarrow>
              index ed' ! i = index ed ! i)"
proof (induction ds arbitrary: p ed)
  case Nil
  then show ?case by simp
next
  case (Cons a ds)
  let ?L = "length (index ed)"
  have ra: "region_step f F a" using Cons.prems(1) by simp
  have rds: "\<forall>d \<in> set ds. region_step f F d" using Cons.prems(1) by simp
  have ba: "p < node_start a" "node_start a < node_end a" "node_end a \<le> ?L"
    using spaced_regions_bounds[OF Cons.prems(2), of a] by simp_all
  from ra ba(3) obtain ed1 where
    h1: "f a ed = Some ed1" "span_text ed1 (node_start a) (node_end a) = F a ed"
        "same_outside ed ed1 (node_start a) (node_end a)"
    unfolding region_step_def by blast
  have l1: "length (index ed1) = ?L" using h1(3) by (simp add: same_outside_def)
  have reg1: "spaced_regions (node_end a) (length (index ed1)) ds"
    using Cons.prems(2) l1 by simp
  from Cons.IH[OF rds reg1] obtain ed' where
    h2: "walk_each f ds ed1 = Some ed'" "length (index ed') = length (index ed1)"
        "\<forall>d \<in> set ds. span_text ed' (node_start d) (node_end d) = F d ed1"
        "\<forall>i < length (index ed1). (\<forall>d \<in> set ds. i < node_start d \<or> node_end d \<le> i) \<longrightarrow>
              index ed' ! i = index ed1 ! i"
    by blast
  have later: "\<And>d. d \<in> set ds \<Longrightarrow> node_end a < node_start d \<and> node_end d \<le> ?L"
    using spaced_regions_bounds[OF reg1] l1 by auto
  have w: "walk_each f (a # ds) ed = Some ed'" using h1(1) h2(1) by simp
  have len: "length (index ed') = ?L" using h2(2) l1 by simp
  have sa: "span_text ed' (node_start a) (node_end a) = F a ed"
  proof -
    have "span_text ed' (node_start a) (node_end a) = span_text ed1 (node_start a) (node_end a)"
    proof (rule span_cong)
      show "length (index ed') = length (index ed1)" by (rule h2(2))
    next
      fix i assume i: "node_start a \<le> i" "i < node_end a" "i < length (index ed1)"
      have "\<forall>d \<in> set ds. i < node_start d \<or> node_end d \<le> i"
        using later i by fastforce
      then show "index ed' ! i = index ed1 ! i" using h2(4) i by simp
    qed
    then show ?thesis using h1(2) by simp
  qed
  have sd: "\<forall>d \<in> set ds. span_text ed' (node_start d) (node_end d) = F d ed"
  proof
    fix d assume d: "d \<in> set ds"
    have agree: "\<forall>i. node_start d \<le> i \<and> i < node_end d \<longrightarrow> index ed1 ! i = index ed ! i"
      using h1(3) later[OF d] by (auto simp: same_outside_def)
    have "region_step f F d" using rds d by simp
    then have "F d ed1 = F d ed" using l1 agree unfolding region_step_def by blast
    then show "span_text ed' (node_start d) (node_end d) = F d ed" using h2(3) d by simp
  qed
  have fr: "\<forall>i < ?L. (\<forall>d \<in> set (a # ds). i < node_start d \<or> node_end d \<le> i) \<longrightarrow>
              index ed' ! i = index ed ! i"
  proof (intro allI impI)
    fix i assume i: "i < ?L" "\<forall>d \<in> set (a # ds). i < node_start d \<or> node_end d \<le> i"
    then have "index ed' ! i = index ed1 ! i" using h2(4) l1 by simp
    moreover have "index ed1 ! i = index ed ! i" using h1(3) i by (auto simp: same_outside_def)
    ultimately show "index ed' ! i = index ed ! i" by simp
  qed
  show ?case using w len sa sd fr by simp
qed

lemma plain_scope: "plain x \<Longrightarrow> scope_c ancestors x st = Some st"
proof (induction x arbitrary: ancestors st)
  case (CallExpression s e callee args)
  have "\<And>anc. walk_each (scope_c anc) args st = Some st"
  proof (rule walk_each_id)
    fix anc x assume "x \<in> set args"
    then show "scope_c anc x st = Some st"
      using CallExpression.prems by (intro CallExpression.IH(2)) (auto simp: list_all_iff)
  qed
  moreover have "\<And>anc. scope_c anc callee st = Some st"
    using CallExpression.prems by (intro CallExpression.IH(1)) simp
  ultimately show ?case by (simp add: Let_def)
qed (simp_all add: Let_def)

lemma prepend_same_start:
  "node_start a = node_start b \<Longrightarrow> SourceEditor_prepend a str ed = SourceEditor_prepend b str ed"
  by (simp add: SourceEditor_prepend_def)

lemma declarator_descent:
  assumes "simple_declarator d"
  shows "scope_c ancestors d st =
           (if translatingVariableDeclaration st
            then map_option (\<lambda>ed. st\<lparr>edit := ed\<rparr>)
                   (SourceEditor_prepend d (Str (globalVar @ ''.'')) (edit st))
            else Some st)"
proof -
  from assms obtain s e i init where
    d: "d = VariableDeclarator s e i init" "is_Identifier i" "node_start i = s"
       "case init of None \<Rightarrow> True | Some x \<Rightarrow> plain x"
    by (cases d) (auto simp: simple_declarator_def)
  from d(2) obtain is0 ie name where i: "i = Identifier is0 ie name" by (cases i) auto
  have w: "\<And>anc. walk_opt (scope_c anc) init st = Some st"
    using d(4) by (cases init) (auto simp: plain_scope)
  have p: "SourceEditor_prepend i (Str (globalVar @ ''.'')) (edit st)
         = SourceEditor_prepend d (Str (globalVar @ ''.'')) (edit st)"
    using d(1) d(3) by (intro prepend_same_start) simp
  show ?thesis
    using w p unfolding d(1) i
    by (cases "SourceEditor_prepend (VariableDeclarator s e (Identifier is0 ie name) init)
                 (Str (globalVar @ ''.'')) (edit st)")
       (simp_all add: Let_def VariableDeclarator_edits_def)
qed

lemma walk_each_unchanged:
  assumes "\<forall>d \<in> set ds. c d st = Some st"
  shows "walk_each c ds st = Some st"
  using assms by (induction ds) auto

lemma wrap_declarator_region_step:
  assumes "node_start d < node_end d"
  shows "region_step wrap_declarator
           (\<lambda>d ed. ''('' @ span_text ed (node_start d) (node_end d) @ declarator_suffix d) d"
  unfolding region_step_def
proof (intro conjI allI impI)
  fix ed assume le: "node_end d \<le> length (index ed)"
  from prepend_text[OF assms le, of "''(''"] obtain ed1 where
    h1: "SourceEditor_prepend d (Str ''('') ed = Some ed1"
        "span_text ed1 (node_start d) (node_end d) = ''('' @ span_text ed (node_start d) (node_end d)"
        "same_outside ed ed1 (node_start d) (Suc (node_start d))"
    by blast
  have l1: "length (index ed1) = length (index ed)" using h1(3) by (simp add: same_outside_def)
  from append_text[OF assms, of ed1 "declarator_suffix d"] le l1 obtain ed2 where
    h2: "SourceEditor_append d (Str (declarator_suffix d)) ed1 = Some ed2"
        "span_text ed2 (node_start d) (node_end d)
           = span_text ed1 (node_start d) (node_end d) @ declarator_suffix d"
        "same_outside ed1 ed2 (node_end d - 1) (node_end d)"
    by auto
  have w: "wrap_declarator d ed = Some ed2"
    using h1(1) h2(1) by (cases "has_init d") (simp_all add: wrap_declarator_def declarator_suffix_def)
  have s1: "same_outside ed ed1 (node_start d) (node_end d)"
    using assms by (intro same_outside_mono[OF h1(3)]) auto
  have s2: "same_outside ed1 ed2 (node_start d) (node_end d)"
    using assms by (intro same_outside_mono[OF h2(3)]) auto
  have "same_outside ed ed2 (node_start d) (node_end d)"
    using s1 s2 by (rule same_outside_trans)
  then show "\<exists>ed'. wrap_declarator d ed = Some ed' \<and>
      span_text ed' (node_start d) (node_end d)
        = ''('' @ span_text ed (node_start d) (node_end d) @ declarator_suffix d \<and>
      same_outside ed ed' (node_start d) (node_end d)"
    using w h1(2) h2(2) by simp
next
  fix ed1 ed2
  assume "length (index ed1) = length (index ed2)"
    "\<forall>i. node_start d \<le> i \<and> i < node_end d \<longrightarrow> index ed1 ! i = index ed2 ! i"
  then have "span_text ed1 (node_start d) (node_end d) = span_text ed2 (node_start d) (node_end d)"
    by (intro span_cong) auto
  then show "''('' @ span_text ed1 (node_start d) (node_end d) @ declarator_suffix d
           = ''('' @ span_text ed2 (node_start d) (node_end d) @ declarator_suffix d"
    by simp
qed

lemma VariableDeclaration_edits_text:
  assumes reg: "spaced_regions (s + length kind) (length (index ed)) decls" and ne: "decls \<noteq> []"
  shows "\<exists>ed'. VariableDeclaration_edits s kind decls ed = Some ed' \<and>
           length (index ed') = length (index ed) \<and>
           span_text ed' s (s + length kind + 1) = ''void ('' \<and>
           (kind \<noteq> [] \<longrightarrow> span_text ed' s (s + length kind) = ''void ('' \<and>
              span_text ed' (s + length kind) (s + length kind + 1) = []) \<and>
           (\<forall>d \<in> set decls. span_text ed' (node_start d) (node_end d) =
              ''('' @ span_text ed (node_start d) (node_end d) @ declarator_suffix d @
              (if d = last decls then '')'' else [])) \<and>
           (\<forall>i < length (index ed).
              (i < s \<or> s + length kind + 1 \<le> i) \<and>
              (\<forall>d \<in> set decls. i < node_start d \<or> node_end d \<le> i) \<longrightarrow>
              index ed' ! i = index ed ! i)"
proof -
  let ?K = "s + length kind + 1"
  let ?L = "length (index ed)"
  let ?dl = "last decls"
  have dl: "?dl \<in> set decls" using ne by simp
  have bounds: "\<And>d. d \<in> set decls \<Longrightarrow> ?K \<le> node_start d \<and> node_start d < node_end d \<and> node_end d \<le> ?L"
    using spaced_regions_bounds[OF reg] by fastforce
  have KL: "?K \<le> ?L" using bounds[OF dl] by simp
  \<comment> \<open>the keyword\<close>
  from replace_text[of s ?K ed "''void (''"] KL obtain edB where
    hB: "SourceEditor_replace s ?K (Str ''void ('') ed = Some edB"
        "span_text edB s ?K = ''void (''" "same_outside ed edB s ?K"
    by auto
  have lB: "length (index edB) = ?L" using hB(3) by (simp add: same_outside_def)
  \<comment> \<open>the loop over the declarators\<close>
  have steps: "\<forall>d \<in> set decls. region_step wrap_declarator
           (\<lambda>d ed. ''('' @ span_text ed (node_start d) (node_end d) @ declarator_suffix d) d"
  proof
    fix d assume "d \<in> set decls"
    then have "node_start d < node_end d" using bounds by blast
    then show "region_step wrap_declarator
           (\<lambda>d ed. ''('' @ span_text ed (node_start d) (node_end d) @ declarator_suffix d) d"
      by (rule wrap_declarator_region_step)
  qed
  have regB: "spaced_regions (s + length kind) (length (index edB)) decls" using reg lB by simp
  from walk_each_regions[OF steps regB] obtain edC where
    hC: "walk_each wrap_declarator decls edB = Some edC" "length (index edC) = length (index edB)"
        "\<forall>d \<in> set decls. span_text edC (node_start d) (node_end d) =
            ''('' @ span_text edB (node_start d) (node_end d) @ declarator_suffix d"
        "\<forall>i < length (index edB). (\<forall>d \<in> set decls. i < node_start d \<or> node_end d \<le> i) \<longrightarrow>
            index edC ! i = index edB ! i"
    by blast
  have lC: "length (index edC) = ?L" using hC(2) lB by simp
  \<comment> \<open>the closing parenthesis\<close>
  from append_text[of "node_start ?dl" ?dl edC "'')''"] bounds[OF dl] lC obtain edD where
    hD: "SourceEditor_append ?dl (Str '')'') edC = Some edD"
        "span_text edD (node_start ?dl) (node_end ?dl) = span_text edC (node_start ?dl) (node_end ?dl) @ '')''"
        "same_outside edC edD (node_end ?dl - 1) (node_end ?dl)"
    by auto
  have lD: "length (index edD) = ?L" using hD(3) lC by (simp add: same_outside_def)
  have res: "VariableDeclaration_edits s kind decls ed = Some edD"
    using hB(1) hC(1) hD(1) ne by (simp add: VariableDeclaration_edits_def)
  have keep: "\<And>a b. s \<le> a \<Longrightarrow> b \<le> ?K \<Longrightarrow> span_text edD a b = span_text edB a b"
  proof -
    fix a b assume ab: "s \<le> a" "b \<le> ?K"
    have "span_text edD a b = span_text edC a b"
      using bounds[OF dl] ab by (intro same_outside_span[OF hD(3)]) auto
    also have "\<dots> = span_text edB a b"
    proof (rule span_cong[OF hC(2)])
      fix i assume i: "a \<le> i" "i < b" "i < length (index edB)"
      have "\<forall>d \<in> set decls. i < node_start d \<or> node_end d \<le> i"
        using bounds i ab by fastforce
      then show "index edC ! i = index edB ! i" using hC(4) i by simp
    qed
    finally show "span_text edD a b = span_text edB a b" .
  qed
  have kw: "span_text edD s ?K = ''void (''"
    using keep[of s ?K] hB(2) by simp
  have kw2: "kind \<noteq> [] \<longrightarrow> span_text edD s (s + length kind) = ''void ('' \<and>
              span_text edD (s + length kind) ?K = []"
  proof
    assume "kind \<noteq> []"
    then have "s < s + length kind" by simp
    from replace_text_split[OF this _ KL hB(1)]
    have "span_text edB s (s + length kind) = ''void ('' \<and> span_text edB (s + length kind) ?K = []"
      by simp
    then show "span_text edD s (s + length kind) = ''void ('' \<and>
              span_text edD (s + length kind) ?K = []"
      using keep[of s "s + length kind"] keep[of "s + length kind" ?K] by simp
  qed
  have each: "\<forall>d \<in> set decls. span_text edD (node_start d) (node_end d) =
              ''('' @ span_text ed (node_start d) (node_end d) @ declarator_suffix d @
              (if d = ?dl then '')'' else [])"
  proof
    fix d assume d: "d \<in> set decls"
    have B: "span_text edB (node_start d) (node_end d) = span_text ed (node_start d) (node_end d)"
      using bounds[OF d] by (intro same_outside_span[OF hB(3)]) auto
    have C: "span_text edC (node_start d) (node_end d) =
            ''('' @ span_text ed (node_start d) (node_end d) @ declarator_suffix d"
      using hC(3) d B by simp
    show "span_text edD (node_start d) (node_end d) =
              ''('' @ span_text ed (node_start d) (node_end d) @ declarator_suffix d @
              (if d = ?dl then '')'' else [])"
    proof (cases "d = ?dl")
      case True
      then show ?thesis using hD(2) C by simp
    next
      case False
      from spaced_regions_last[OF reg d False]
      have "span_text edD (node_start d) (node_end d) = span_text edC (node_start d) (node_end d)"
        using bounds[OF dl] by (intro same_outside_span[OF hD(3)]) auto
      then show ?thesis using C False by simp
    qed
  qed
  have frame: "\<forall>i < ?L. (i < s \<or> ?K \<le> i) \<and> (\<forall>d \<in> set decls. i < node_start d \<or> node_end d \<le> i) \<longrightarrow>
              index edD ! i = index ed ! i"
  proof (intro allI impI)
    fix i assume i: "i < ?L" "(i < s \<or> ?K \<le> i) \<and> (\<forall>d \<in> set decls. i < node_start d \<or> node_end d \<le> i)"
    have "i < node_start ?dl \<or> node_end ?dl \<le> i" using i dl by blast
    then have "index edD ! i = index edC ! i"
      using hD(3) i lC bounds[OF dl] by (auto simp: same_outside_def)
    also have "\<dots> = index edB ! i" using hC(4) i lB by simp
    also have "\<dots> = index ed ! i" using hB(3) i by (auto simp: same_outside_def)
    finally show "index edD ! i = index ed ! i" .
  qed
  show ?thesis using res lD kw kw2 each frame by blast
qed

text \<open>
  The walk into an expression or a pattern that is placed: it returns normally, changes
  the editor only, and only inside the node. The same holds for a declarator.
\<close>

lemma walk_each_confined:
  "(\<forall>x \<in> set xs. \<forall>st. length (index (edit st)) = L \<longrightarrow>
      (\<exists>ed'. c x st = Some (st\<lparr>edit := ed'\<rparr>) \<and> same_outside (edit st) ed' a b)) \<Longrightarrow>
   length (index (edit st)) = L \<Longrightarrow>
   \<exists>ed'. walk_each c xs st = Some (st\<lparr>edit := ed'\<rparr>) \<and> same_outside (edit st) ed' a b"
proof (induction xs arbitrary: st)
  case Nil
  have "st\<lparr>edit := edit st\<rparr> = st" by simp
  then show ?case by (intro exI[of _ "edit st"]) simp
next
  case (Cons x xs)
  from Cons.prems obtain ed1 where
    h1: "c x st = Some (st\<lparr>edit := ed1\<rparr>)" "same_outside (edit st) ed1 a b"
    by auto
  have l1: "length (index (edit (st\<lparr>edit := ed1\<rparr>))) = L"
    using h1(2) Cons.prems(2) by (simp add: same_outside_def)
  have rest: "\<forall>x \<in> set xs. \<forall>st. length (index (edit st)) = L \<longrightarrow>
      (\<exists>ed'. c x st = Some (st\<lparr>edit := ed'\<rparr>) \<and> same_outside (edit st) ed' a b)"
    using Cons.prems(1) by simp
  from Cons.IH[OF rest l1] obtain ed2 where
    h2: "walk_each c xs (st\<lparr>edit := ed1\<rparr>) = Some (st\<lparr>edit := ed1\<rparr>\<lparr>edit := ed2\<rparr>)"
        "same_outside (edit (st\<lparr>edit := ed1\<rparr>)) ed2 a b"
    by blast
  have "walk_each c (x # xs) st = Some (st\<lparr>edit := ed2\<rparr>)" using h1(1) h2(1) by simp
  moreover have "same_outside (edit st) ed2 a b"
    using h1(2) h2(2) by (auto intro: same_outside_trans)
  ultimately show ?case by blast
qed

lemma walk_each_confined_editor:
  "(\<forall>x \<in> set xs. \<forall>ed. length (index ed) = L \<longrightarrow>
      (\<exists>ed'. f x ed = Some ed' \<and> same_outside ed ed' a b)) \<Longrightarrow>
   length (index ed) = L \<Longrightarrow>
   \<exists>ed'. walk_each f xs ed = Some ed' \<and> same_outside ed ed' a b"
proof (induction xs arbitrary: ed)
  case Nil
  then show ?case by simp
next
  case (Cons x xs)
  from Cons.prems obtain ed1 where
    h1: "f x ed = Some ed1" "same_outside ed ed1 a b"
    by auto
  have l1: "length (index ed1) = L" using h1(2) Cons.prems(2) by (simp add: same_outside_def)
  have rest: "\<forall>x \<in> set xs. \<forall>ed. length (index ed) = L \<longrightarrow>
      (\<exists>ed'. f x ed = Some ed' \<and> same_outside ed ed' a b)"
    using Cons.prems(1) by simp
  from Cons.IH[OF rest l1] obtain ed2 where
    h2: "walk_each f xs ed1 = Some ed2" "same_outside ed1 ed2 a b"
    by blast
  have "walk_each f (x # xs) ed = Some ed2" using h1(1) h2(1) by simp
  moreover have "same_outside ed ed2 a b" using h1(2) h2(2) by (rule same_outside_trans)
  ultimately show ?case by blast
qed

lemma prepend_confined:
  assumes "inside s e v" "e \<le> length (index ed)"
  shows "\<exists>ed'. SourceEditor_prepend v (Str t) ed = Some ed' \<and> same_outside ed ed' s e"
proof -
  from assms have a: "node_start v < node_end v" "node_end v \<le> length (index ed)"
    by (simp_all add: inside_def)
  from prepend_text[OF a, of t] obtain ed' where
    h: "SourceEditor_prepend v (Str t) ed = Some ed'"
       "same_outside ed ed' (node_start v) (Suc (node_start v))"
    by blast
  have "same_outside ed ed' s e"
    using assms(1) by (intro same_outside_mono[OF h(2)]) (simp_all add: inside_def)
  then show ?thesis using h(1) by blast
qed

lemma append_confined:
  assumes "inside s e v" "e \<le> length (index ed)"
  shows "\<exists>ed'. SourceEditor_append v (Str t) ed = Some ed' \<and> same_outside ed ed' s e"
proof -
  from assms have a: "node_start v < node_end v" "node_end v \<le> length (index ed)"
    by (simp_all add: inside_def)
  from append_text[OF a, of t] obtain ed' where
    h: "SourceEditor_append v (Str t) ed = Some ed'"
       "same_outside ed ed' (node_end v - 1) (node_end v)"
    by blast
  have "s \<le> node_end v - 1" using assms(1) by (auto simp: inside_def)
  moreover have "node_end v \<le> e" using assms(1) by (simp add: inside_def)
  ultimately have "same_outside ed ed' s e"
    by (intro same_outside_mono[OF h(2)])
  then show ?thesis using h(1) by blast
qed

lemma ObjectPattern_edits_confined:
  assumes props: "\<forall>p \<in> set props. \<exists>ps pe sh k v. p = Property ps pe sh k v \<and> inside s e v"
    and len: "e \<le> length (index (edit st))"
  shows "\<exists>ed'. ObjectPattern_edits props st = Some (st\<lparr>edit := ed'\<rparr>) \<and>
           same_outside (edit st) ed' s e"
proof (cases "translatingVariableDeclaration st")
  case False
  have "st\<lparr>edit := edit st\<rparr> = st" by simp
  then show ?thesis using False by (intro exI[of _ "edit st"]) (simp add: ObjectPattern_edits_def)
next
  case True
  have step: "\<forall>p \<in> set props. \<forall>ed. length (index ed) = length (index (edit st)) \<longrightarrow>
      (\<exists>ed'. ObjectPattern_property p ed = Some ed' \<and> same_outside ed ed' s e)"
  proof (intro ballI allI impI)
    fix p ed assume p: "p \<in> set props" and l: "length (index ed) = length (index (edit st))"
    from props p obtain ps pe sh k v where pv: "p = Property ps pe sh k v" "inside s e v" by blast
    have le: "e \<le> length (index ed)" using len l by simp
    show "\<exists>ed'. ObjectPattern_property p ed = Some ed' \<and> same_outside ed ed' s e"
    proof (cases sh)
      case True
      from append_confined[OF pv(2) le, of "'':'' @ globalVar @ ''.'' @ node_name v"]
      show ?thesis using pv(1) True by simp
    next
      case False
      show ?thesis
      proof (cases "is_Identifier v")
        case True
        from prepend_confined[OF pv(2) le, of "globalVar @ ''.''"]
        show ?thesis using pv(1) True \<open>\<not> sh\<close> by simp
      next
        case False
        then show ?thesis using pv(1) \<open>\<not> sh\<close> by simp
      qed
    qed
  qed
  from walk_each_confined_editor[OF step refl] obtain ed' where
    "walk_each ObjectPattern_property props (edit st) = Some ed'" "same_outside (edit st) ed' s e"
    by blast
  then show ?thesis using True by (auto simp: ObjectPattern_edits_def)
qed

lemma ArrayPattern_edits_confined:
  assumes elts: "\<forall>elt \<in> set elts. \<exists>x. elt = Some x \<and> inside s e x"
    and len: "e \<le> length (index (edit st))"
  shows "\<exists>ed'. ArrayPattern_edits elts st = Some (st\<lparr>edit := ed'\<rparr>) \<and>
           same_outside (edit st) ed' s e"
proof (cases "translatingVariableDeclaration st")
  case False
  have "st\<lparr>edit := edit st\<rparr> = st" by simp
  then show ?thesis using False by (intro exI[of _ "edit st"]) (simp add: ArrayPattern_edits_def)
next
  case True
  have step: "\<forall>elt \<in> set elts. \<forall>ed. length (index ed) = length (index (edit st)) \<longrightarrow>
      (\<exists>ed'. ArrayPattern_element elt ed = Some ed' \<and> same_outside ed ed' s e)"
  proof (intro ballI allI impI)
    fix elt ed assume p: "elt \<in> set elts" and l: "length (index ed) = length (index (edit st))"
    from elts p obtain x where x: "elt = Some x" "inside s e x" by blast
    have le: "e \<le> length (index ed)" using len l by simp
    show "\<exists>ed'. ArrayPattern_element elt ed = Some ed' \<and> same_outside ed ed' s e"
    proof (cases "is_Identifier x")
      case True
      from prepend_confined[OF x(2) le, of "globalVar @ ''.''"]
      show ?thesis using x(1) True by simp
    next
      case False
      then show ?thesis using x(1) by simp
    qed
  qed
  from walk_each_confined_editor[OF step refl] obtain ed' where
    "walk_each ArrayPattern_element elts (edit st) = Some ed'" "same_outside (edit st) ed' s e"
    by blast
  then show ?thesis using True by (auto simp: ArrayPattern_edits_def)
qed


lemma same_outside_widen:
  "same_outside ed ed' (node_start m) (node_end m) \<Longrightarrow> inside s e m \<Longrightarrow> same_outside ed ed' s e"
  by (erule same_outside_mono) (simp_all add: inside_def)

lemma scope_placed:
  "placed n \<Longrightarrow> node_end n \<le> length (index (edit st)) \<Longrightarrow>
   \<exists>ed'. scope_c ancestors n st = Some (st\<lparr>edit := ed'\<rparr>) \<and>
          same_outside (edit st) ed' (node_start n) (node_end n)"
proof (induction n arbitrary: ancestors st rule: measure_induct_rule[where f=size])
  case (less n)
  let ?L = "length (index (edit st))"
  let ?s = "node_start n"
  let ?e = "node_end n"
  have same: "st\<lparr>edit := edit st\<rparr> = st" by simp
  have child: "\<And>m anc st'. size m < size n \<Longrightarrow> inside ?s ?e m \<Longrightarrow> placed m \<Longrightarrow>
      length (index (edit st')) = ?L \<Longrightarrow>
        \<exists>ed'. scope_c anc m (st'::scopeState) = Some (st'\<lparr>edit := ed'\<rparr>) \<and>
               same_outside (edit st') ed' ?s ?e"
  proof -
    fix m anc and st' :: scopeState
    assume m: "size m < size n" "inside ?s ?e m" "placed m" and l: "length (index (edit st')) = ?L"
    have "node_end m \<le> length (index (edit st'))"
      using m(2) l less.prems(2) by (simp add: inside_def)
    from less.IH[OF m(1) m(3) this, of anc] obtain ed' where
      h: "scope_c anc m st' = Some (st'\<lparr>edit := ed'\<rparr>)"
         "same_outside (edit st') ed' (node_start m) (node_end m)"
      by blast
    from same_outside_widen[OF h(2) m(2)] h(1)
    show "\<exists>ed'. scope_c anc m st' = Some (st'\<lparr>edit := ed'\<rparr>) \<and> same_outside (edit st') ed' ?s ?e"
      by blast
  qed
  show ?case
  proof (cases n)
    case (Identifier s e name)
    then show ?thesis using same by (intro exI[of _ "edit st"]) simp
  next
    case (Literal s e)
    then show ?thesis using same by (intro exI[of _ "edit st"]) simp
  next
    case (FunctionExpression s e params b)
    then show ?thesis using same by (intro exI[of _ "edit st"]) simp
  next
    case (ArrowFunctionExpression s e params b)
    then show ?thesis using same by (intro exI[of _ "edit st"]) simp
  next
    case (CallExpression s e callee args)
    let ?anc = "push_new ancestors n"
    have pc: "inside ?s ?e callee" "placed callee" using less.prems(1) CallExpression by simp_all
    have "size callee < size n" using CallExpression by simp
    from child[OF this pc refl, of ?anc] obtain ed1 where
      h1: "scope_c ?anc callee st = Some (st\<lparr>edit := ed1\<rparr>)" "same_outside (edit st) ed1 ?s ?e"
      by blast
    have l1: "length (index (edit (st\<lparr>edit := ed1\<rparr>))) = ?L"
      using h1(2) by (simp add: same_outside_def)
    have "\<forall>x \<in> set args. \<forall>st'. length (index (edit st')) = ?L \<longrightarrow>
        (\<exists>ed'. scope_c ?anc x st' = Some (st'\<lparr>edit := ed'\<rparr>) \<and> same_outside (edit st') ed' ?s ?e)"
    proof
      fix x assume x: "x \<in> set args"
      then have "inside ?s ?e x" "placed x" using less.prems(1) CallExpression
        by (simp_all add: list_all_iff)
      moreover have "size x < size n" using size_in_list[OF x] CallExpression by simp
      ultimately show "\<forall>st'. length (index (edit st')) = ?L \<longrightarrow>
        (\<exists>ed'. scope_c ?anc x st' = Some (st'\<lparr>edit := ed'\<rparr>) \<and> same_outside (edit st') ed' ?s ?e)"
        by (intro allI impI child)
    qed
    from walk_each_confined[OF this l1] obtain ed2 where
      h2: "walk_each (scope_c ?anc) args (st\<lparr>edit := ed1\<rparr>) = Some (st\<lparr>edit := ed1\<rparr>\<lparr>edit := ed2\<rparr>)"
          "same_outside (edit (st\<lparr>edit := ed1\<rparr>)) ed2 ?s ?e"
      by blast
    have "scope_c ancestors n st = Some (st\<lparr>edit := ed2\<rparr>)"
      using h1(1) h2(1) unfolding CallExpression by (simp add: Let_def)
    moreover have "same_outside (edit st) ed2 ?s ?e"
      using h1(2) h2(2) by (auto intro: same_outside_trans)
    ultimately show ?thesis by blast
  next
    case (AssignmentExpression s e l r)
    let ?anc = "push_new ancestors n"
    have pl: "inside ?s ?e l" "placed l" "inside ?s ?e r" "placed r"
      using less.prems(1) AssignmentExpression by simp_all
    have sz: "size l < size n" "size r < size n" using AssignmentExpression by simp_all
    from child[OF sz(1) pl(1,2) refl, of ?anc] obtain ed1 where
      h1: "scope_c ?anc l st = Some (st\<lparr>edit := ed1\<rparr>)" "same_outside (edit st) ed1 ?s ?e"
      by blast
    have l1: "length (index (edit (st\<lparr>edit := ed1\<rparr>))) = ?L"
      using h1(2) by (simp add: same_outside_def)
    from child[OF sz(2) pl(3,4) l1, of ?anc] obtain ed2 where
      h2: "scope_c ?anc r (st\<lparr>edit := ed1\<rparr>) = Some (st\<lparr>edit := ed1\<rparr>\<lparr>edit := ed2\<rparr>)"
          "same_outside (edit (st\<lparr>edit := ed1\<rparr>)) ed2 ?s ?e"
      by blast
    have "scope_c ancestors n st = Some (st\<lparr>edit := ed2\<rparr>)"
      using h1(1) h2(1) unfolding AssignmentExpression by (simp add: Let_def)
    moreover have "same_outside (edit st) ed2 ?s ?e"
      using h1(2) h2(2) by (auto intro: same_outside_trans)
    ultimately show ?thesis by blast
  next
    case (Property s e sh k v)
    let ?anc = "push_new ancestors n"
    have pv: "inside ?s ?e v" "placed v" using less.prems(1) Property by simp_all
    have "size v < size n" using Property by simp
    from child[OF this pv refl, of ?anc] obtain ed1 where
      h1: "scope_c ?anc v st = Some (st\<lparr>edit := ed1\<rparr>)" "same_outside (edit st) ed1 ?s ?e"
      by blast
    have "scope_c ancestors n st = Some (st\<lparr>edit := ed1\<rparr>)"
      using h1(1) unfolding Property by simp
    then show ?thesis using h1(2) by blast
  next
    case (ObjectPattern s e props)
    let ?anc = "push_new ancestors n"
    let ?c = "\<lambda>p st. case p of Property _ _ _ _ v \<Rightarrow> scope_c ?anc v st | _ \<Rightarrow> None"
    have props: "\<forall>p \<in> set props. \<exists>ps pe sh k v. p = Property ps pe sh k v \<and> inside ?s ?e v \<and> placed v"
    proof
      fix p assume p: "p \<in> set props"
      have c: "case p of Property ps pe sh k v \<Rightarrow> inside s e v \<and> placed v | _ \<Rightarrow> False"
        using less.prems(1) ObjectPattern p by (simp add: list_all_iff)
      show "\<exists>ps pe sh k v. p = Property ps pe sh k v \<and> inside ?s ?e v \<and> placed v"
      proof (cases p)
        case (Property ps pe sh k v)
        then show ?thesis using c ObjectPattern by simp
      qed (use c in simp_all)
    qed
    have "\<forall>p \<in> set props. \<forall>st'. length (index (edit st')) = ?L \<longrightarrow>
        (\<exists>ed'. ?c p st' = Some (st'\<lparr>edit := ed'\<rparr>) \<and> same_outside (edit st') ed' ?s ?e)"
    proof
      fix p assume p: "p \<in> set props"
      with props obtain ps pe sh k v where pv: "p = Property ps pe sh k v" "inside ?s ?e v" "placed v"
        by blast
      have "size v < size n" using size_in_list[OF p] pv(1) ObjectPattern by simp
      note ch = child[OF this pv(2) pv(3), of _ ?anc]
      show "\<forall>st'. length (index (edit st')) = ?L \<longrightarrow>
        (\<exists>ed'. ?c p st' = Some (st'\<lparr>edit := ed'\<rparr>) \<and> same_outside (edit st') ed' ?s ?e)"
        unfolding pv(1) using ch by simp
    qed
    from walk_each_confined[OF this refl] obtain ed1 where
      h1: "walk_each ?c props st = Some (st\<lparr>edit := ed1\<rparr>)" "same_outside (edit st) ed1 ?s ?e"
      by blast
    have l1: "?e \<le> length (index (edit (st\<lparr>edit := ed1\<rparr>)))"
      using h1(2) less.prems(2) by (simp add: same_outside_def)
    have props': "\<forall>p \<in> set props. \<exists>ps pe sh k v. p = Property ps pe sh k v \<and> inside ?s ?e v"
      using props by blast
    from ObjectPattern_edits_confined[OF props' l1] obtain ed2 where
      h2: "ObjectPattern_edits props (st\<lparr>edit := ed1\<rparr>) = Some (st\<lparr>edit := ed1\<rparr>\<lparr>edit := ed2\<rparr>)"
          "same_outside (edit (st\<lparr>edit := ed1\<rparr>)) ed2 ?s ?e"
      by blast
    have "scope_c ancestors n st = Some (st\<lparr>edit := ed2\<rparr>)"
      using h1(1) h2(1) unfolding ObjectPattern by (simp add: Let_def)
    moreover have "same_outside (edit st) ed2 ?s ?e"
      using h1(2) h2(2) by (auto intro: same_outside_trans)
    ultimately show ?thesis by blast
  next
    case (ArrayPattern s e elts)
    let ?anc = "push_new ancestors n"
    have elts: "\<forall>elt \<in> set elts. \<exists>x. elt = Some x \<and> inside ?s ?e x \<and> placed x"
    proof
      fix elt assume p: "elt \<in> set elts"
      have c: "case elt of None \<Rightarrow> False | Some x \<Rightarrow> inside s e x \<and> placed x"
        using less.prems(1) ArrayPattern p by (simp add: list_all_iff)
      show "\<exists>x. elt = Some x \<and> inside ?s ?e x \<and> placed x"
      proof (cases elt)
        case (Some x)
        then show ?thesis using c ArrayPattern by simp
      qed (use c in simp)
    qed
    have "\<forall>elt \<in> set elts. \<forall>st'. length (index (edit st')) = ?L \<longrightarrow>
        (\<exists>ed'. walk_opt (scope_c ?anc) elt st' = Some (st'\<lparr>edit := ed'\<rparr>) \<and>
               same_outside (edit st') ed' ?s ?e)"
    proof
      fix elt assume p: "elt \<in> set elts"
      with elts obtain x where x: "elt = Some x" "inside ?s ?e x" "placed x" by blast
      have "size x < size n" using size_in_option_list[of x elts] p x(1) ArrayPattern by simp
      note ch = child[OF this x(2) x(3), of _ ?anc]
      show "\<forall>st'. length (index (edit st')) = ?L \<longrightarrow>
        (\<exists>ed'. walk_opt (scope_c ?anc) elt st' = Some (st'\<lparr>edit := ed'\<rparr>) \<and>
               same_outside (edit st') ed' ?s ?e)"
        unfolding x(1) using ch by simp
    qed
    from walk_each_confined[OF this refl] obtain ed1 where
      h1: "walk_each (walk_opt (scope_c ?anc)) elts st = Some (st\<lparr>edit := ed1\<rparr>)"
          "same_outside (edit st) ed1 ?s ?e"
      by blast
    have l1: "?e \<le> length (index (edit (st\<lparr>edit := ed1\<rparr>)))"
      using h1(2) less.prems(2) by (simp add: same_outside_def)
    have elts': "\<forall>elt \<in> set elts. \<exists>x. elt = Some x \<and> inside ?s ?e x"
      using elts by blast
    from ArrayPattern_edits_confined[OF elts' l1] obtain ed2 where
      h2: "ArrayPattern_edits elts (st\<lparr>edit := ed1\<rparr>) = Some (st\<lparr>edit := ed1\<rparr>\<lparr>edit := ed2\<rparr>)"
          "same_outside (edit (st\<lparr>edit := ed1\<rparr>)) ed2 ?s ?e"
      by blast
    have "scope_c ancestors n st = Some (st\<lparr>edit := ed2\<rparr>)"
      using h1(1) h2(1) unfolding ArrayPattern by (simp add: Let_def)
    moreover have "same_outside (edit st) ed2 ?s ?e"
      using h1(2) h2(2) by (auto intro: same_outside_trans)
    ultimately show ?thesis by blast
  qed (use less.prems(1) in simp_all)
qed

lemma declarator_confined:
  assumes "placed_declarator d" "node_end d \<le> length (index (edit st))"
  shows "\<exists>ed'. scope_c ancestors d st = Some (st\<lparr>edit := ed'\<rparr>) \<and>
           same_outside (edit st) ed' (node_start d) (node_end d)"
proof -
  from assms(1) obtain s e i init where
    d: "d = VariableDeclarator s e i init" "inside s e i" "placed i"
       "case init of None \<Rightarrow> True | Some x \<Rightarrow> inside s e x \<and> placed x"
    by (cases d) (auto simp: placed_declarator_def)
  let ?anc = "push_new ancestors d"
  let ?L = "length (index (edit st))"
  have eL: "e \<le> ?L" using assms(2) d(1) by simp
  have "node_end i \<le> ?L" using d(2) eL by (simp add: inside_def)
  from scope_placed[OF d(3) this, of ?anc] obtain ed1 where
    h1: "scope_c ?anc i st = Some (st\<lparr>edit := ed1\<rparr>)"
        "same_outside (edit st) ed1 (node_start i) (node_end i)"
    by blast
  have s1: "same_outside (edit st) ed1 s e" using h1(2) d(2) by (rule same_outside_widen)
  have l1: "length (index ed1) = ?L" using s1 by (simp add: same_outside_def)
  have "\<exists>ed2. walk_opt (scope_c ?anc) init (st\<lparr>edit := ed1\<rparr>) = Some (st\<lparr>edit := ed2\<rparr>) \<and>
          same_outside ed1 ed2 s e"
  proof (cases init)
    case None
    then show ?thesis by (intro exI[of _ ed1]) simp
  next
    case (Some x)
    then have x: "inside s e x" "placed x" using d(4) by simp_all
    have "node_end x \<le> length (index (edit (st\<lparr>edit := ed1\<rparr>)))"
      using x(1) eL l1 by (simp add: inside_def)
    from scope_placed[OF x(2) this, of ?anc] obtain ed2 where
      h: "scope_c ?anc x (st\<lparr>edit := ed1\<rparr>) = Some (st\<lparr>edit := ed2\<rparr>)"
         "same_outside ed1 ed2 (node_start x) (node_end x)"
      by auto
    from same_outside_widen[OF h(2) x(1)] h(1) Some show ?thesis by auto
  qed
  then obtain ed2 where
    h2: "walk_opt (scope_c ?anc) init (st\<lparr>edit := ed1\<rparr>) = Some (st\<lparr>edit := ed2\<rparr>)"
        "same_outside ed1 ed2 s e"
    by blast
  have l2: "length (index ed2) = ?L" using h2(2) l1 by (simp add: same_outside_def)
  have "\<exists>ed3. VariableDeclarator_edits i (st\<lparr>edit := ed2\<rparr>) = Some (st\<lparr>edit := ed3\<rparr>) \<and>
          same_outside ed2 ed3 s e"
  proof (cases "translatingVariableDeclaration st \<and> is_Identifier i")
    case False
    then show ?thesis by (intro exI[of _ ed2]) (auto simp: VariableDeclarator_edits_def)
  next
    case True
    have "e \<le> length (index ed2)" using eL l2 by simp
    from prepend_confined[OF d(2) this, of "globalVar @ ''.''"] obtain ed3 where
      "SourceEditor_prepend i (Str (globalVar @ ''.'')) ed2 = Some ed3" "same_outside ed2 ed3 s e"
      by blast
    then show ?thesis using True by (auto simp: VariableDeclarator_edits_def)
  qed
  then obtain ed3 where
    h3: "VariableDeclarator_edits i (st\<lparr>edit := ed2\<rparr>) = Some (st\<lparr>edit := ed3\<rparr>)"
        "same_outside ed2 ed3 s e"
    by blast
  have "scope_c ancestors d st = Some (st\<lparr>edit := ed3\<rparr>)"
    using h1(1) h2(1) h3(1) unfolding d(1) by (simp add: Let_def)
  moreover have "same_outside (edit st) ed3 s e"
    using s1 h2(2) h3(2) by (blast intro: same_outside_trans)
  ultimately show ?thesis using d(1) by auto
qed

lemma declarator_step:
  assumes "wf_declarator d" "node_start d < node_end d"
    and "node_end d \<le> length (index (edit st))" "translatingVariableDeclaration st"
  shows "\<exists>ed'. scope_c ancestors d st = Some (st\<lparr>edit := ed'\<rparr>) \<and>
           same_outside (edit st) ed' (node_start d) (node_end d) \<and>
           (simple_declarator d \<longrightarrow>
              span_text ed' (node_start d) (node_end d) =
                globalVar @ ''.'' @ span_text (edit st) (node_start d) (node_end d))"
proof (cases "simple_declarator d")
  case True
  from prepend_text[OF assms(2,3), of "globalVar @ ''.''"] obtain ed' where
    h: "SourceEditor_prepend d (Str (globalVar @ ''.'')) (edit st) = Some ed'"
       "span_text ed' (node_start d) (node_end d) =
          (globalVar @ ''.'') @ span_text (edit st) (node_start d) (node_end d)"
       "same_outside (edit st) ed' (node_start d) (Suc (node_start d))"
    by blast
  have "scope_c ancestors d st = Some (st\<lparr>edit := ed'\<rparr>)"
    using declarator_descent[OF True, of ancestors st] assms(4) h(1) by simp
  moreover have "same_outside (edit st) ed' (node_start d) (node_end d)"
    using assms(2) by (intro same_outside_mono[OF h(3)]) auto
  ultimately show ?thesis using h(2) by auto
next
  case False
  then have "placed_declarator d" using assms(1) by (simp add: wf_declarator_def)
  from declarator_confined[OF this assms(3), of ancestors] False show ?thesis by auto
qed

lemma walk_declarators:
  "list_all wf_declarator ds \<Longrightarrow> spaced_regions p (length (index (edit st))) ds \<Longrightarrow>
   translatingVariableDeclaration st \<Longrightarrow>
   \<exists>ed'. walk_each (scope_c ancestors) ds st = Some (st\<lparr>edit := ed'\<rparr>) \<and>
          length (index ed') = length (index (edit st)) \<and>
          (\<forall>d \<in> set ds. simple_declarator d \<longrightarrow>
             span_text ed' (node_start d) (node_end d) =
               globalVar @ ''.'' @ span_text (edit st) (node_start d) (node_end d)) \<and>
          (\<forall>i < length (index (edit st)). (\<forall>d \<in> set ds. i < node_start d \<or> node_end d \<le> i) \<longrightarrow>
             index ed' ! i = index (edit st) ! i)"
proof (induction ds arbitrary: p st)
  case Nil
  have "st\<lparr>edit := edit st\<rparr> = st" by simp
  then show ?case by (intro exI[of _ "edit st"]) simp
next
  case (Cons a ds)
  let ?L = "length (index (edit st))"
  have ba: "p < node_start a" "node_start a < node_end a" "node_end a \<le> ?L"
    using spaced_regions_bounds[OF Cons.prems(2), of a] by simp_all
  have wa: "wf_declarator a" and wds: "list_all wf_declarator ds" using Cons.prems(1) by simp_all
  from declarator_step[OF wa ba(2) ba(3) Cons.prems(3), of ancestors] obtain ed1 where
    h1: "scope_c ancestors a st = Some (st\<lparr>edit := ed1\<rparr>)"
        "same_outside (edit st) ed1 (node_start a) (node_end a)"
        "simple_declarator a \<longrightarrow>
           span_text ed1 (node_start a) (node_end a) =
             globalVar @ ''.'' @ span_text (edit st) (node_start a) (node_end a)"
    by blast
  let ?st1 = "st\<lparr>edit := ed1\<rparr>"
  have l1: "length (index ed1) = ?L" using h1(2) by (simp add: same_outside_def)
  have reg1: "spaced_regions (node_end a) (length (index (edit ?st1))) ds"
    using Cons.prems(2) l1 by simp
  have f1: "translatingVariableDeclaration ?st1" using Cons.prems(3) by simp
  from Cons.IH[OF wds reg1 f1] obtain ed' where
    h2: "walk_each (scope_c ancestors) ds ?st1 = Some (?st1\<lparr>edit := ed'\<rparr>)"
        "length (index ed') = length (index (edit ?st1))"
        "\<forall>d \<in> set ds. simple_declarator d \<longrightarrow>
             span_text ed' (node_start d) (node_end d) =
               globalVar @ ''.'' @ span_text (edit ?st1) (node_start d) (node_end d)"
        "\<forall>i < length (index (edit ?st1)). (\<forall>d \<in> set ds. i < node_start d \<or> node_end d \<le> i) \<longrightarrow>
             index ed' ! i = index (edit ?st1) ! i"
    by blast
  have later: "\<And>d. d \<in> set ds \<Longrightarrow> node_end a < node_start d \<and> node_end d \<le> ?L"
    using spaced_regions_bounds[OF reg1] l1 by auto
  have w: "walk_each (scope_c ancestors) (a # ds) st = Some (st\<lparr>edit := ed'\<rparr>)"
    using h1(1) h2(1) by simp
  have len: "length (index ed') = ?L" using h2(2) l1 by simp
  have sa: "simple_declarator a \<longrightarrow>
           span_text ed' (node_start a) (node_end a) =
             globalVar @ ''.'' @ span_text (edit st) (node_start a) (node_end a)"
  proof -
    have "span_text ed' (node_start a) (node_end a) = span_text ed1 (node_start a) (node_end a)"
    proof (rule span_cong)
      show "length (index ed') = length (index ed1)" using h2(2) by simp
    next
      fix i assume i: "node_start a \<le> i" "i < node_end a" "i < length (index ed1)"
      have "\<forall>d \<in> set ds. i < node_start d \<or> node_end d \<le> i"
        using later i by fastforce
      then show "index ed' ! i = index ed1 ! i" using h2(4) i by simp
    qed
    then show ?thesis using h1(3) by simp
  qed
  have sd: "\<forall>d \<in> set ds. simple_declarator d \<longrightarrow>
             span_text ed' (node_start d) (node_end d) =
               globalVar @ ''.'' @ span_text (edit st) (node_start d) (node_end d)"
  proof (intro ballI impI)
    fix d assume d: "d \<in> set ds" and sd: "simple_declarator d"
    have "span_text ed1 (node_start d) (node_end d) = span_text (edit st) (node_start d) (node_end d)"
      using later[OF d] by (intro same_outside_span[OF h1(2)]) auto
    then show "span_text ed' (node_start d) (node_end d) =
               globalVar @ ''.'' @ span_text (edit st) (node_start d) (node_end d)"
      using h2(3) d sd by simp
  qed
  have fr: "\<forall>i < ?L. (\<forall>d \<in> set (a # ds). i < node_start d \<or> node_end d \<le> i) \<longrightarrow>
              index ed' ! i = index (edit st) ! i"
  proof (intro allI impI)
    fix i assume i: "i < ?L" "\<forall>d \<in> set (a # ds). i < node_start d \<or> node_end d \<le> i"
    then have "index ed' ! i = index ed1 ! i" using h2(4) l1 by simp
    moreover have "index ed1 ! i = index (edit st) ! i" using h1(2) i by (auto simp: same_outside_def)
    ultimately show "index ed' ! i = index (edit st) ! i" by simp
  qed
  show ?case by (rule exI[of _ ed']) (use w len sa sd fr in simp)
qed

lemma push_new_other:
  "ancestors \<noteq> [] \<Longrightarrow> last ancestors \<noteq> n \<Longrightarrow> push_new ancestors n = ancestors @ [n]"
  by (simp add: push_new_def)

lemma VariableDeclaration_untranslated:
  assumes anc: "ancestors \<noteq> []" "last ancestors \<noteq> VariableDeclaration s e kind decls"
    and tr: "kind \<noteq> ''var''" "last ancestors \<noteq> body st"
    and simple: "list_all simple_declarator decls"
  shows "scope_c ancestors (VariableDeclaration s e kind decls) st
           = Some (st\<lparr>translatingVariableDeclaration := False\<rparr>)"
proof -
  let ?n = "VariableDeclaration s e kind decls"
  let ?st = "st\<lparr>translatingVariableDeclaration := False\<rparr>"
  have pn: "push_new ancestors ?n = ancestors @ [?n]" using anc by (rule push_new_other)
  have top: "parent_is_body (ancestors @ [?n]) st = Some False"
    using anc(1) tr(2) by (simp add: parent_is_body_snoc)
  have "\<forall>d \<in> set decls. scope_c (ancestors @ [?n]) d ?st = Some ?st"
    using simple by (auto simp: list_all_iff declarator_descent)
  then have "walk_each (scope_c (ancestors @ [?n])) decls ?st = Some ?st"
    by (rule walk_each_unchanged)
  then show ?thesis using pn top tr(1) by simp
qed

lemma VariableDeclaration_translated:
  assumes anc: "ancestors \<noteq> []" "last ancestors \<noteq> VariableDeclaration s e kind decls"
    and tr: "kind = ''var'' \<or> last ancestors = body st"
    and wf: "list_all wf_declarator decls"
    and reg: "spaced_regions (s + length kind) (length (index (edit st))) decls"
    and ne: "decls \<noteq> []"
  shows "\<exists>ed'. scope_c ancestors (VariableDeclaration s e kind decls) st
                 = Some (st\<lparr>translatingVariableDeclaration := False, edit := ed'\<rparr>) \<and>
           length (index ed') = length (index (edit st)) \<and>
           span_text ed' s (s + length kind + 1) = ''void ('' \<and>
           (kind \<noteq> [] \<longrightarrow> span_text ed' s (s + length kind) = ''void ('' \<and>
              span_text ed' (s + length kind) (s + length kind + 1) = []) \<and>
           (\<forall>d \<in> set decls. \<exists>t. span_text ed' (node_start d) (node_end d) =
              ''('' @ t @ declarator_suffix d @ (if d = last decls then '')'' else []) \<and>
              (simple_declarator d \<longrightarrow>
                 t = globalVar @ ''.'' @ span_text (edit st) (node_start d) (node_end d))) \<and>
           (\<forall>i < length (index (edit st)).
              (i < s \<or> s + length kind + 1 \<le> i) \<and>
              (\<forall>d \<in> set decls. i < node_start d \<or> node_end d \<le> i) \<longrightarrow>
              index ed' ! i = index (edit st) ! i)"
proof -
  let ?n = "VariableDeclaration s e kind decls"
  let ?K = "s + length kind + 1"
  let ?ed = "edit st"
  let ?L = "length (index ?ed)"
  let ?stT = "st\<lparr>translatingVariableDeclaration := True\<rparr>"
  have pn: "push_new ancestors ?n = ancestors @ [?n]" using anc by (rule push_new_other)
  have top: "parent_is_body (ancestors @ [?n]) st = Some (last ancestors = body st)"
    using anc(1) by (simp add: parent_is_body_snoc)
  have regT: "spaced_regions (s + length kind) (length (index (edit ?stT))) decls" using reg by simp
  have fT: "translatingVariableDeclaration ?stT" by simp
  from walk_declarators[OF wf regT fT, of "ancestors @ [?n]"] obtain edA where
    hA: "walk_each (scope_c (ancestors @ [?n])) decls ?stT = Some (?stT\<lparr>edit := edA\<rparr>)"
        "length (index edA) = ?L"
        "\<forall>d \<in> set decls. simple_declarator d \<longrightarrow>
            span_text edA (node_start d) (node_end d) =
              globalVar @ ''.'' @ span_text ?ed (node_start d) (node_end d)"
        "\<forall>i < ?L. (\<forall>d \<in> set decls. i < node_start d \<or> node_end d \<le> i) \<longrightarrow>
            index edA ! i = index ?ed ! i"
    by auto
  have regA: "spaced_regions (s + length kind) (length (index edA)) decls" using reg hA(2) by simp
  from VariableDeclaration_edits_text[OF regA ne] obtain ed' where
    hE: "VariableDeclaration_edits s kind decls edA = Some ed'"
        "length (index ed') = length (index edA)"
        "span_text ed' s ?K = ''void (''"
        "\<forall>d \<in> set decls. span_text ed' (node_start d) (node_end d) =
              ''('' @ span_text edA (node_start d) (node_end d) @ declarator_suffix d @
              (if d = last decls then '')'' else [])"
        "\<forall>i < length (index edA).
              (i < s \<or> ?K \<le> i) \<and> (\<forall>d \<in> set decls. i < node_start d \<or> node_end d \<le> i) \<longrightarrow>
              index ed' ! i = index edA ! i"
        "kind \<noteq> [] \<longrightarrow> span_text ed' s (s + length kind) = ''void ('' \<and>
              span_text ed' (s + length kind) ?K = []"
    by blast
  have res: "scope_c ancestors ?n st = Some (st\<lparr>translatingVariableDeclaration := False, edit := ed'\<rparr>)"
    using pn top tr hA(1) hE(1) by (auto simp: Let_def)
  have each: "\<forall>d \<in> set decls. \<exists>t. span_text ed' (node_start d) (node_end d) =
              ''('' @ t @ declarator_suffix d @ (if d = last decls then '')'' else []) \<and>
              (simple_declarator d \<longrightarrow>
                 t = globalVar @ ''.'' @ span_text ?ed (node_start d) (node_end d))"
  proof
    fix d assume d: "d \<in> set decls"
    show "\<exists>t. span_text ed' (node_start d) (node_end d) =
              ''('' @ t @ declarator_suffix d @ (if d = last decls then '')'' else []) \<and>
              (simple_declarator d \<longrightarrow>
                 t = globalVar @ ''.'' @ span_text ?ed (node_start d) (node_end d))"
      using hE(4) hA(3) d by (intro exI[of _ "span_text edA (node_start d) (node_end d)"]) simp
  qed
  have frame: "\<forall>i < ?L. (i < s \<or> ?K \<le> i) \<and> (\<forall>d \<in> set decls. i < node_start d \<or> node_end d \<le> i) \<longrightarrow>
              index ed' ! i = index ?ed ! i"
    using hE(5) hA(4) hA(2) by simp
  show ?thesis by (rule exI[of _ ed']) (use res hE(2) hA(2) hE(3) hE(6) each frame in simp)
qed

text \<open>
  C4, amended. Let a \<open>var\<close>, \<open>let\<close> or \<open>const\<close> declaration be visited with its parent on
  top of the ancestor stack, and let it be translated (it is a \<open>var\<close>, or the parent is
  the wrapper body). Let its declarators lie one after the other inside the index, the
  first one at least one character behind the keyword, each of them simple or placed
  (identifiers and patterns without holes, with any initializer). Then the visit
  returns normally. The span of the keyword renders \<open>void (\<close> and the node of the one
  character after the keyword is empty. The span of every declarator renders \<open>(\<close>, a
  text \<open>t\<close>, and \<open>)\<close> if it has an initializer, \<open>= undefined)\<close> if it has none, and one
  more \<open>)\<close> behind the last declarator. For a simple declarator (\<open>name = initExpr\<close> with
  an initializer free of patterns, or \<open>name\<close> alone) \<open>t\<close> is \<open>__global.\<close> followed by the
  former text of the declarator: the declarator is parenthesized as a whole, and the
  initializer gets no parentheses of its own. Every node outside the keyword, the
  character after it and the declarators is the one it was.
\<close>

theorem declaration_translation:
  assumes "ancestors \<noteq> []" and "last ancestors \<noteq> VariableDeclaration s e kind decls"
    and "kind = ''var'' \<or> last ancestors = body st"
    and "kind \<in> set [''var'', ''let'', ''const'']"
    and "list_all wf_declarator decls"
    and "spaced_regions (s + length kind) (length (index (edit st))) decls"
    and "decls \<noteq> []"
  shows "\<exists>st'. scope_c ancestors (VariableDeclaration s e kind decls) st = Some st' \<and>
           length (index (edit st')) = length (index (edit st)) \<and>
           span_text (edit st') s (s + length kind) = ''void ('' \<and>
           span_text (edit st') (s + length kind) (s + length kind + 1) = [] \<and>
           (\<forall>d \<in> set decls. \<exists>t. span_text (edit st') (node_start d) (node_end d) =
              ''('' @ t @ (if has_init d then '')'' else ''= undefined)'') @
              (if d = last decls then '')'' else []) \<and>
              (simple_declarator d \<longrightarrow>
                 t = globalVar @ ''.'' @ span_text (edit st) (node_start d) (node_end d))) \<and>
           (\<forall>i < length (index (edit st)).
              (i < s \<or> s + length kind + 1 \<le> i) \<and>
              (\<forall>d \<in> set decls. i < node_start d \<or> node_end d \<le> i) \<longrightarrow>
              index (edit st') ! i = index (edit st) ! i)"
proof -
  have kn: "kind \<noteq> []" using assms(4) by auto
  from VariableDeclaration_translated[OF assms(1,2,3,5,6,7)] kn obtain ed' where
    h: "scope_c ancestors (VariableDeclaration s e kind decls) st
                 = Some (st\<lparr>translatingVariableDeclaration := False, edit := ed'\<rparr>)"
       "length (index ed') = length (index (edit st))"
       "span_text ed' s (s + length kind) = ''void (''"
       "span_text ed' (s + length kind) (s + length kind + 1) = []"
       "\<forall>d \<in> set decls. \<exists>t. span_text ed' (node_start d) (node_end d) =
              ''('' @ t @ declarator_suffix d @ (if d = last decls then '')'' else []) \<and>
              (simple_declarator d \<longrightarrow>
                 t = globalVar @ ''.'' @ span_text (edit st) (node_start d) (node_end d))"
       "\<forall>i < length (index (edit st)).
              (i < s \<or> s + length kind + 1 \<le> i) \<and>
              (\<forall>d \<in> set decls. i < node_start d \<or> node_end d \<le> i) \<longrightarrow>
              index ed' ! i = index (edit st) ! i"
    by blast
  let ?st' = "st\<lparr>translatingVariableDeclaration := False, edit := ed'\<rparr>"
  have e: "edit ?st' = ed'" by simp
  have each: "\<forall>d \<in> set decls. \<exists>t. span_text ed' (node_start d) (node_end d) =
              ''('' @ t @ (if has_init d then '')'' else ''= undefined)'') @
              (if d = last decls then '')'' else []) \<and>
              (simple_declarator d \<longrightarrow>
                 t = globalVar @ ''.'' @ span_text (edit st) (node_start d) (node_end d))"
    using h(5) unfolding declarator_suffix_def .
  show ?thesis
    apply (rule exI[of _ ?st'])
    unfolding e
    using h(1,2,3,4,6) each by simp
qed

text \<open>
  The decision of the visitor, for a declaration with simple, well-placed declarators
  that is visited with its parent on top of the ancestor stack. If it is a \<open>var\<close>,
  whatever the parent, or if the parent is the wrapper body, it is translated: the
  keyword renders \<open>void (\<close> and every declarator starts with \<open>(__global.\<close>. If it is a
  \<open>let\<close> or a \<open>const\<close> and the parent is not the wrapper body, the visit leaves the editor
  as it was.
\<close>

lemma translation_decision:
  assumes "ancestors \<noteq> []" and "last ancestors \<noteq> VariableDeclaration s e kind decls"
    and "list_all simple_declarator decls"
    and "spaced_regions (s + length kind) (length (index (edit st))) decls"
    and "decls \<noteq> []"
  shows "(kind = ''var'' \<or> last ancestors = body st \<longrightarrow>
            (\<exists>st'. scope_c ancestors (VariableDeclaration s e kind decls) st = Some st' \<and>
               span_text (edit st') s (s + length kind + 1) = ''void ('' \<and>
               (\<forall>d \<in> set decls. \<exists>rest. span_text (edit st') (node_start d) (node_end d) =
                  ''('' @ globalVar @ ''.'' @ rest))) \<and>
         (kind \<noteq> ''var'' \<and> last ancestors \<noteq> body st \<longrightarrow>
            (\<exists>st'. scope_c ancestors (VariableDeclaration s e kind decls) st = Some st' \<and>
               edit st' = edit st))"
proof (intro conjI impI)
  assume tr: "kind = ''var'' \<or> last ancestors = body st"
  have wf: "list_all wf_declarator decls"
    using assms(3) by (simp add: list_all_iff wf_declarator_def)
  from VariableDeclaration_translated[OF assms(1,2) tr wf assms(4,5)] obtain ed' where
    h: "scope_c ancestors (VariableDeclaration s e kind decls) st
                 = Some (st\<lparr>translatingVariableDeclaration := False, edit := ed'\<rparr>)"
       "span_text ed' s (s + length kind + 1) = ''void (''"
       "\<forall>d \<in> set decls. \<exists>t. span_text ed' (node_start d) (node_end d) =
              ''('' @ t @ declarator_suffix d @ (if d = last decls then '')'' else []) \<and>
              (simple_declarator d \<longrightarrow>
                 t = globalVar @ ''.'' @ span_text (edit st) (node_start d) (node_end d))"
    by blast
  let ?st' = "st\<lparr>translatingVariableDeclaration := False, edit := ed'\<rparr>"
  have e: "edit ?st' = ed'" by simp
  have "\<forall>d \<in> set decls. \<exists>rest. span_text ed' (node_start d) (node_end d) =
                  ''('' @ globalVar @ ''.'' @ rest"
  proof
    fix d assume d: "d \<in> set decls"
    then have sd: "simple_declarator d" using assms(3) by (simp add: list_all_iff)
    from h(3) d sd have "span_text ed' (node_start d) (node_end d) =
              ''('' @ (globalVar @ ''.'' @ span_text (edit st) (node_start d) (node_end d)) @
              declarator_suffix d @ (if d = last decls then '')'' else [])"
      by auto
    then show "\<exists>rest. span_text ed' (node_start d) (node_end d) = ''('' @ globalVar @ ''.'' @ rest"
      by simp
  qed
  then show "\<exists>st'. scope_c ancestors (VariableDeclaration s e kind decls) st = Some st' \<and>
               span_text (edit st') s (s + length kind + 1) = ''void ('' \<and>
               (\<forall>d \<in> set decls. \<exists>rest. span_text (edit st') (node_start d) (node_end d) =
                  ''('' @ globalVar @ ''.'' @ rest)"
    using h(1) h(2) e by (intro exI[of _ ?st']) simp
next
  assume "kind \<noteq> ''var'' \<and> last ancestors \<noteq> body st"
  then have "scope_c ancestors (VariableDeclaration s e kind decls) st
           = Some (st\<lparr>translatingVariableDeclaration := False\<rparr>)"
    using assms by (intro VariableDeclaration_untranslated) auto
  then show "\<exists>st'. scope_c ancestors (VariableDeclaration s e kind decls) st = Some st' \<and>
               edit st' = edit st"
    by simp
qed

lemmas scope_eval_defs = scope_state_def SourceEditor_new_def set_source_def convert_def
  push_new_def parent_is_body_def SourceEditor_prepend_def SourceEditor_append_def
  EditNode_prepend_def EditNode_append_def Let_def globalVar_def
  VariableDeclaration_edits_def VariableDeclarator_edits_def wrap_declarator_def
  ObjectPattern_edits_def ArrayPattern_edits_def
  SourceEditor_replace_def EditNode_replace_def EditNode_clear_def clear_from.simps
  SourceEditor_text_def get_source_def

lemma edit_scope_state: "edit (scope_state src b) = SourceEditor_new (Str src) None"
  by (simp add: scope_state_def)

text \<open>
  C4, witness: the declaration \<open>var a = 1, b, {c, d: e} = o, [f] = p;\<close> directly in the
  body. Its first two declarators are simple and become \<open>(__global.a = 1)\<close> and
  \<open>(__global.b= undefined)\<close>; the two destructuring declarators are wrapped in the same
  way, the identifiers of their patterns being prefixed.
\<close>

theorem declaration_translation_witness:
  "[BlockStatement 0 37 [VariableDeclaration 0 37 ''var'' mixed_declarators]] \<noteq> [] \<and>
   last [BlockStatement 0 37 [VariableDeclaration 0 37 ''var'' mixed_declarators]]
     \<noteq> VariableDeclaration 0 37 ''var'' mixed_declarators \<and>
   ''var'' \<in> set [''var'', ''let'', ''const''] \<and>
   list_all wf_declarator mixed_declarators \<and>
   spaced_regions (0 + length ''var'')
     (length (index (edit (scope_state ''var a = 1, b, {c, d: e} = o, [f] = p;''
        (BlockStatement 0 37 [VariableDeclaration 0 37 ''var'' mixed_declarators])))))
     mixed_declarators \<and>
   mixed_declarators \<noteq> [] \<and>
   (\<exists>st'. scope_c [BlockStatement 0 37 [VariableDeclaration 0 37 ''var'' mixed_declarators]]
            (VariableDeclaration 0 37 ''var'' mixed_declarators)
            (scope_state ''var a = 1, b, {c, d: e} = o, [f] = p;''
               (BlockStatement 0 37 [VariableDeclaration 0 37 ''var'' mixed_declarators]))
          = Some st' \<and>
      span_text (edit st') 0 3 = ''void ('' \<and>
      span_text (edit st') 3 4 = [] \<and>
      span_text (edit st') 4 9 = ''(__global.a = 1)'' \<and>
      span_text (edit st') 11 12 = ''(__global.b= undefined)'' \<and>
      SourceEditor_text (edit st') =
        ''void ((__global.a = 1), (__global.b= undefined), ({c:__global.c, d: __global.e} = o), ([__global.f] = p));'')"
proof -
  let ?n = "VariableDeclaration 0 37 ''var'' mixed_declarators"
  let ?B = "BlockStatement 0 37 [?n]"
  let ?st = "scope_state ''var a = 1, b, {c, d: e} = o, [f] = p;'' ?B"
  have h1: "[?B] \<noteq> []" by simp
  have h2: "last [?B] \<noteq> ?n" by simp
  have h3: "''var'' = ''var'' \<or> last [?B] = body ?st" by simp
  have h4: "list_all wf_declarator mixed_declarators"
    by (simp add: mixed_declarators_def wf_declarator_def simple_declarator_def
        placed_declarator_def inside_def)
  have h5: "spaced_regions (0 + length ''var'') (length (index (edit ?st))) mixed_declarators"
    by (simp add: edit_scope_state length_pristine mixed_declarators_def)
  have h6: "mixed_declarators \<noteq> []" by (simp add: mixed_declarators_def)
  have hk: "''var'' \<in> set [''var'', ''let'', ''const'']" by simp
  from declaration_translation[OF h1 h2 h3 hk h4 h5 h6] obtain st' where
    r: "scope_c [?B] ?n ?st = Some st'"
       "span_text (edit st') 0 (0 + length ''var'') = ''void (''"
       "span_text (edit st') (0 + length ''var'') (0 + length ''var'' + 1) = []"
       "\<forall>d \<in> set mixed_declarators. \<exists>t. span_text (edit st') (node_start d) (node_end d) =
              ''('' @ t @ (if has_init d then '')'' else ''= undefined)'') @
              (if d = last mixed_declarators then '')'' else []) \<and>
              (simple_declarator d \<longrightarrow>
                 t = globalVar @ ''.'' @ span_text (edit ?st) (node_start d) (node_end d))"
    by blast
  have k: "0 + length ''var'' = (3::nat)" "0 + length ''var'' + 1 = (4::nat)" by simp_all
  have a: "span_text (edit st') 0 3 = ''void (''" using r(2)[unfolded k] .
  have a2: "span_text (edit st') 3 4 = []" using r(3)[unfolded k(1)] by simp
  let ?da = "VariableDeclarator 4 9 (Identifier 4 5 ''a'') (Some (Literal 8 9))"
  let ?db = "VariableDeclarator 11 12 (Identifier 11 12 ''b'') None"
  have ina: "?da \<in> set mixed_declarators" and inb: "?db \<in> set mixed_declarators"
    by (simp_all add: mixed_declarators_def)
  have sa: "simple_declarator ?da" and sb: "simple_declarator ?db"
    by (simp_all add: simple_declarator_def)
  have la: "?da \<noteq> last mixed_declarators" and lb: "?db \<noteq> last mixed_declarators"
    by (simp_all add: mixed_declarators_def)
  from r(4) ina sa la have b: "span_text (edit st') 4 9 = ''(__global.a = 1)''"
    by (auto simp: edit_scope_state span_pristine globalVar_def)
  from r(4) inb sb lb have c: "span_text (edit st') 11 12 = ''(__global.b= undefined)''"
    by (auto simp: edit_scope_state span_pristine globalVar_def)
  have "map_option (\<lambda>st'. SourceEditor_text (edit st')) (scope_c [?B] ?n ?st)
          = Some ''void ((__global.a = 1), (__global.b= undefined), ({c:__global.c, d: __global.e} = o), ([__global.f] = p));''"
    by (simp add: scope_eval_defs mixed_declarators_def)
  then have d: "SourceEditor_text (edit st') =
      ''void ((__global.a = 1), (__global.b= undefined), ({c:__global.c, d: __global.e} = o), ([__global.f] = p));''"
    using r(1) by simp
  show ?thesis using h1 h2 hk h4 h5 h6 r(1) a a2 b c d by blast
qed

text \<open>
  The decision on examples: a \<open>var\<close> nested in a block is translated, a \<open>let\<close> nested
  in a block is not, and a \<open>let\<close> whose parent is the body is.
\<close>

lemma translation_decision_examples:
  "(\<exists>st'. scope_c [BlockStatement 0 16 [BlockStatement 1 15 [nested_var]], BlockStatement 1 15 [nested_var]]
            nested_var
            (scope_state ''{{ var x = 1; }}'' (BlockStatement 0 16 [BlockStatement 1 15 [nested_var]]))
          = Some st' \<and>
      SourceEditor_text (edit st') = ''{{ void ((__global.x = 1)); }}'' \<and>
      span_text (edit st') 3 7 = ''void ('') \<and>
   (\<exists>st'. scope_c [BlockStatement 0 16 [BlockStatement 1 15 [nested_let]], BlockStatement 1 15 [nested_let]]
            nested_let
            (scope_state ''{{ let x = 1; }}'' (BlockStatement 0 16 [BlockStatement 1 15 [nested_let]]))
          = Some st' \<and>
      SourceEditor_text (edit st') = ''{{ let x = 1; }}'') \<and>
   (\<exists>st'. scope_c [BlockStatement 1 15 [nested_let]] nested_let
            (scope_state ''{{ let x = 1; }}'' (BlockStatement 1 15 [nested_let]))
          = Some st' \<and>
      SourceEditor_text (edit st') = ''{{ void ((__global.x = 1)); }}'' \<and>
      span_text (edit st') 3 7 = ''void ('')"
proof -
  let ?decls = "[VariableDeclarator 7 12 (Identifier 7 8 ''x'') (Some (Literal 11 12))]"
  have nv: "nested_var = VariableDeclaration 3 13 ''var'' ?decls" by (simp add: nested_var_def)
  have nl: "nested_let = VariableDeclaration 3 13 ''let'' ?decls" by (simp add: nested_let_def)
  have simple: "list_all simple_declarator ?decls" by (simp add: simple_declarator_def)
  have ne: "?decls \<noteq> []" by simp
  \<comment> \<open>a \<open>var\<close> nested in a block\<close>
  let ?iv = "BlockStatement 1 15 [nested_var]"
  let ?Bv = "BlockStatement 0 16 [?iv]"
  let ?stv = "scope_state ''{{ var x = 1; }}'' ?Bv"
  have v1: "[?Bv, ?iv] \<noteq> []" by simp
  have v2: "last [?Bv, ?iv] \<noteq> VariableDeclaration 3 13 ''var'' ?decls" by simp
  have v4: "spaced_regions (3 + length ''var'') (length (index (edit ?stv))) ?decls"
    by (simp add: edit_scope_state length_pristine)
  have v5: "''var'' = ''var'' \<or> last [?Bv, ?iv] = body ?stv" by simp
  from translation_decision[OF v1 v2 simple v4 ne, THEN conjunct1, rule_format, OF v5]
  obtain stv where
    rv: "scope_c [?Bv, ?iv] (VariableDeclaration 3 13 ''var'' ?decls) ?stv = Some stv"
        "span_text (edit stv) 3 (3 + length ''var'' + 1) = ''void (''"
    by blast
  have "map_option (\<lambda>st'. SourceEditor_text (edit st')) (scope_c [?Bv, ?iv] nested_var ?stv)
          = Some ''{{ void ((__global.x = 1)); }}''"
    by (simp add: scope_eval_defs nested_var_def)
  then have tv: "SourceEditor_text (edit stv) = ''{{ void ((__global.x = 1)); }}''"
    using rv(1) nv by simp
  have A: "\<exists>st'. scope_c [?Bv, ?iv] nested_var ?stv = Some st' \<and>
      SourceEditor_text (edit st') = ''{{ void ((__global.x = 1)); }}'' \<and>
      span_text (edit st') 3 7 = ''void (''"
  proof -
    have k: "3 + length ''var'' + 1 = (7::nat)" by simp
    show ?thesis using rv(1)[folded nv] tv rv(2)[unfolded k] by blast
  qed
  \<comment> \<open>a \<open>let\<close> nested in a block\<close>
  let ?il = "BlockStatement 1 15 [nested_let]"
  let ?Bl = "BlockStatement 0 16 [?il]"
  let ?stl = "scope_state ''{{ let x = 1; }}'' ?Bl"
  have l1: "[?Bl, ?il] \<noteq> []" by simp
  have l2: "last [?Bl, ?il] \<noteq> VariableDeclaration 3 13 ''let'' ?decls" by simp
  have l4: "spaced_regions (3 + length ''let'') (length (index (edit ?stl))) ?decls"
    by (simp add: edit_scope_state length_pristine)
  have l5: "''let'' \<noteq> ''var'' \<and> last [?Bl, ?il] \<noteq> body ?stl" by (simp add: scope_state_def)
  from translation_decision[OF l1 l2 simple l4 ne, THEN conjunct2, rule_format, OF l5]
  obtain stl where
    rl: "scope_c [?Bl, ?il] (VariableDeclaration 3 13 ''let'' ?decls) ?stl = Some stl"
        "edit stl = edit ?stl"
    by blast
  have B: "\<exists>st'. scope_c [?Bl, ?il] nested_let ?stl = Some st' \<and>
      SourceEditor_text (edit st') = ''{{ let x = 1; }}''"
  proof -
    have "SourceEditor_text (edit stl) = ''{{ let x = 1; }}''"
      using rl(2) by (simp add: edit_scope_state text_pristine)
    then show ?thesis using rl(1)[folded nl] by blast
  qed
  \<comment> \<open>a \<open>let\<close> directly in the body\<close>
  let ?stt = "scope_state ''{{ let x = 1; }}'' ?il"
  have t1: "[?il] \<noteq> []" by simp
  have t2: "last [?il] \<noteq> VariableDeclaration 3 13 ''let'' ?decls" by simp
  have t4: "spaced_regions (3 + length ''let'') (length (index (edit ?stt))) ?decls"
    by (simp add: edit_scope_state length_pristine)
  have t5: "''let'' = ''var'' \<or> last [?il] = body ?stt" by (simp add: scope_state_def)
  from translation_decision[OF t1 t2 simple t4 ne, THEN conjunct1, rule_format, OF t5]
  obtain stt where
    rt: "scope_c [?il] (VariableDeclaration 3 13 ''let'' ?decls) ?stt = Some stt"
        "span_text (edit stt) 3 (3 + length ''let'' + 1) = ''void (''"
    by blast
  have "map_option (\<lambda>st'. SourceEditor_text (edit st')) (scope_c [?il] nested_let ?stt)
          = Some ''{{ void ((__global.x = 1)); }}''"
    by (simp add: scope_eval_defs nested_let_def)
  then have tt: "SourceEditor_text (edit stt) = ''{{ void ((__global.x = 1)); }}''"
    using rt(1) nl by simp
  have C: "\<exists>st'. scope_c [?il] nested_let ?stt = Some st' \<and>
      SourceEditor_text (edit st') = ''{{ void ((__global.x = 1)); }}'' \<and>
      span_text (edit st') 3 7 = ''void (''"
  proof -
    have k: "3 + length ''let'' + 1 = (7::nat)" by simp
    show ?thesis using rt(1)[folded nl] tt rt(2)[unfolded k] by blast
  qed
  show ?thesis using A B C by blast
qed

section \<open>Import declarations in the import pass\<close>

lemma replace_text_max:
  assumes "start < length (index ed)" "endp \<le> length (index ed)"
  shows "\<exists>ed'. SourceEditor_replace start endp (Str t) ed = Some ed' \<and>
           span_text ed' start (max endp (Suc start)) = t \<and>
           same_outside ed ed' start (max endp (Suc start))"
proof (cases "start < endp")
  case True
  then have "max endp (Suc start) = endp" by simp
  then show ?thesis using replace_text[OF True assms(2), of t] by simp
next
  case False
  let ?E = "Suc start"
  have m: "max endp (Suc start) = ?E" using False by simp
  from SourceEditor_replace_spec[OF assms(1), of endp "Str t"] assms(2) obtain ed' where
    h: "SourceEditor_replace start endp (Str t) ed = Some ed'"
       "length (index ed') = length (index ed)"
       "\<forall>j < length (index ed). index ed' ! j =
              (if j = start then EditNode (convert (Str t) None)
               else if start < j \<and> j < endp then EditNode [] else index ed ! j)"
    by blast
  have "span_text ed' start ?E = node_text (index ed' ! start)"
    using assms(1) h(2) by (intro span_single) simp
  moreover have "node_text (index ed' ! start) = t"
    using h(3) assms(1) by (simp add: node_text_def)
  moreover have "same_outside ed ed' start ?E"
    using h(2) h(3) False by (auto simp: same_outside_def)
  ultimately show ?thesis using h(1) m by simp
qed

lemma prepend_append_text:
  assumes "node_start a < node_end b" "node_end b \<le> length (index ed)"
  shows "\<exists>ed1 ed2. SourceEditor_prepend a (Str t1) ed = Some ed1 \<and>
           SourceEditor_append b (Str t2) ed1 = Some ed2 \<and>
           span_text ed2 (node_start a) (node_end b)
             = t1 @ span_text ed (node_start a) (node_end b) @ t2 \<and>
           same_outside ed ed2 (node_start a) (node_end b)"
proof -
  from prepend_text[OF assms, of t1] obtain ed1 where
    h1: "SourceEditor_prepend a (Str t1) ed = Some ed1"
        "span_text ed1 (node_start a) (node_end b) = t1 @ span_text ed (node_start a) (node_end b)"
        "same_outside ed ed1 (node_start a) (Suc (node_start a))"
    by blast
  have l1: "length (index ed1) = length (index ed)" using h1(3) by (simp add: same_outside_def)
  from append_text[OF assms(1), of ed1 t2] assms(2) l1 obtain ed2 where
    h2: "SourceEditor_append b (Str t2) ed1 = Some ed2"
        "span_text ed2 (node_start a) (node_end b) = span_text ed1 (node_start a) (node_end b) @ t2"
        "same_outside ed1 ed2 (node_end b - 1) (node_end b)"
    by auto
  have s1: "same_outside ed ed1 (node_start a) (node_end b)"
    using assms by (intro same_outside_mono[OF h1(3)]) auto
  have s2: "same_outside ed1 ed2 (node_start a) (node_end b)"
    using assms by (intro same_outside_mono[OF h2(3)]) auto
  have "same_outside ed ed2 (node_start a) (node_end b)"
    using s1 s2 by (rule same_outside_trans)
  then show ?thesis using h1(1,2) h2(1,2) by simp
qed

lemma binding_local:
  assumes "length (index ed1) = length (index ed2)"
    and "\<forall>i. node_start d \<le> i \<and> i < node_end d \<longrightarrow> index ed1 ! i = index ed2 ! i"
    and "wf_specifier d"
  shows "binding ed1 d = binding ed2 d"
proof (cases d)
  case (ImportSpecifier s e imported local)
  have whole: "span_text ed1 s e = span_text ed2 s e"
    using assms(1,2) ImportSpecifier by (intro span_cong) auto
  show ?thesis
  proof (cases "node_start local > node_end imported")
    case False
    then show ?thesis using whole ImportSpecifier by simp
  next
    case True
    then have w: "s < node_end imported" "node_start local < e" "node_end imported < node_start local"
      using assms(3) ImportSpecifier by auto
    have "span_text ed1 s (node_end imported) = span_text ed2 s (node_end imported)"
      using assms(1,2) ImportSpecifier w by (intro span_cong) auto
    moreover have "span_text ed1 (node_start local) e = span_text ed2 (node_start local) e"
      using assms(1,2) ImportSpecifier w by (intro span_cong) auto
    ultimately show ?thesis using True ImportSpecifier by simp
  qed
next
  case (ImportDefaultSpecifier s e local)
  have "span_text ed1 (node_start local) (node_end local) = span_text ed2 (node_start local) (node_end local)"
    using assms ImportDefaultSpecifier by (intro span_cong) auto
  then show ?thesis using ImportDefaultSpecifier by simp
next
  case (ImportNamespaceSpecifier s e local)
  have "span_text ed1 (node_start local) e = span_text ed2 (node_start local) e"
    using assms ImportNamespaceSpecifier by (intro span_cong) auto
  then show ?thesis using ImportNamespaceSpecifier by simp
qed (use assms(3) in auto)

lemma specifier_text:
  assumes wf: "wf_specifier d" and le: "node_end d \<le> length (index ed)"
  shows "\<exists>ed'. import_c d ed = Some ed' \<and>
           span_text ed' (node_start d) (node_end d) = binding ed d \<and>
           same_outside ed ed' (node_start d) (node_end d)"
proof (cases d)
  case (ImportSpecifier s e imported local)
  let ?d = "ImportSpecifier s e imported local"
  have se: "s < e" "e \<le> length (index ed)" using wf le ImportSpecifier by auto
  show ?thesis
  proof (cases "node_start local > node_end imported")
    case False
    from prepend_append_text[of ?d ?d ed "''_:{''" "''}''"] se obtain ed1 ed2 where
      h: "SourceEditor_prepend ?d (Str ''_:{'') ed = Some ed1"
         "SourceEditor_append ?d (Str ''}'') ed1 = Some ed2"
         "span_text ed2 s e = ''_:{'' @ span_text ed s e @ ''}''"
         "same_outside ed ed2 s e"
      by auto
    have "import_c ?d ed = Some ed2"
      using h(1,2) False by (simp add: ImportSpecifier_edits_def)
    then show ?thesis using h(3,4) False ImportSpecifier by simp
  next
    case True
    let ?ie = "node_end imported"
    let ?ls = "node_start local"
    have w: "s < ?ie" "?ls < e" "?ie < ?ls" using wf True ImportSpecifier by auto
    from prepend_text[of ?d ?ie ed "''_:{''"] w se obtain ed1 where
      h1: "SourceEditor_prepend ?d (Str ''_:{'') ed = Some ed1"
          "span_text ed1 s ?ie = ''_:{'' @ span_text ed s ?ie"
          "same_outside ed ed1 s (Suc s)"
      by auto
    have l1: "length (index ed1) = length (index ed)" using h1(3) by (simp add: same_outside_def)
    from replace_text[of ?ie ?ls ed1 "'':''"] w se l1 obtain ed2 where
      h2: "SourceEditor_replace ?ie ?ls (Str '':'') ed1 = Some ed2"
          "span_text ed2 ?ie ?ls = '':''"
          "same_outside ed1 ed2 ?ie ?ls"
      by auto
    have l2: "length (index ed2) = length (index ed)" using h2(3) l1 by (simp add: same_outside_def)
    from append_text[of ?ls ?d ed2 "''}''"] w se l2 obtain ed3 where
      h3: "SourceEditor_append ?d (Str ''}'') ed2 = Some ed3"
          "span_text ed3 ?ls e = span_text ed2 ?ls e @ ''}''"
          "same_outside ed2 ed3 (e - 1) e"
      by auto
    have r: "import_c ?d ed = Some ed3"
      using h1(1) h2(1) h3(1) True by (simp add: ImportSpecifier_edits_def)
    have p1: "span_text ed3 s ?ie = ''_:{'' @ span_text ed s ?ie"
    proof -
      have "span_text ed3 s ?ie = span_text ed2 s ?ie"
        using w by (intro same_outside_span[OF h3(3)]) auto
      also have "\<dots> = span_text ed1 s ?ie"
        by (intro same_outside_span[OF h2(3)]) auto
      finally show ?thesis using h1(2) by simp
    qed
    have p2: "span_text ed3 ?ie ?ls = '':''"
    proof -
      have "span_text ed3 ?ie ?ls = span_text ed2 ?ie ?ls"
        using w by (intro same_outside_span[OF h3(3)]) auto
      then show ?thesis using h2(2) by simp
    qed
    have p3: "span_text ed3 ?ls e = span_text ed ?ls e @ ''}''"
    proof -
      have "span_text ed2 ?ls e = span_text ed1 ?ls e"
        by (intro same_outside_span[OF h2(3)]) auto
      also have "\<dots> = span_text ed ?ls e"
        using w by (intro same_outside_span[OF h1(3)]) auto
      finally show ?thesis using h3(2) by simp
    qed
    have "span_text ed3 s e = span_text ed3 s ?ie @ span_text ed3 ?ie ?ls @ span_text ed3 ?ls e"
      using w span_split[of s ?ie e ed3] span_split[of ?ie ?ls e ed3] by simp
    then have tx: "span_text ed3 s e = binding ed ?d" using p1 p2 p3 True by simp
    have s1: "same_outside ed ed1 s e" using se by (intro same_outside_mono[OF h1(3)]) auto
    have s2: "same_outside ed1 ed2 s e" using w by (intro same_outside_mono[OF h2(3)]) auto
    have s3: "same_outside ed2 ed3 s e" using se by (intro same_outside_mono[OF h3(3)]) auto
    have "same_outside ed ed3 s e"
      using s1 s2 s3 by (blast intro: same_outside_trans)
    then show ?thesis using r tx ImportSpecifier by simp
  qed
next
  case (ImportDefaultSpecifier s e local)
  have w: "node_start local = s" "node_end local = e" "s < e" "e \<le> length (index ed)"
    using wf le ImportDefaultSpecifier by auto
  from prepend_append_text[of local local ed "''_:{default:''" "''}''"] w obtain ed1 ed2 where
    h: "SourceEditor_prepend local (Str ''_:{default:'') ed = Some ed1"
       "SourceEditor_append local (Str ''}'') ed1 = Some ed2"
       "span_text ed2 s e = ''_:{default:'' @ span_text ed s e @ ''}''"
       "same_outside ed ed2 s e"
    by auto
  have "import_c (ImportDefaultSpecifier s e local) ed = Some ed2"
    using h(1,2) by (simp add: ImportDefaultSpecifier_edits_def)
  then show ?thesis using h(3,4) w ImportDefaultSpecifier by simp
next
  case (ImportNamespaceSpecifier s e local)
  let ?ls = "node_start local"
  have w: "s < ?ls" "?ls < e" "e \<le> length (index ed)"
    using wf le ImportNamespaceSpecifier by auto
  from replace_text[of s ?ls ed "''_:''"] w obtain ed1 where
    h: "SourceEditor_replace s ?ls (Str ''_:'') ed = Some ed1"
       "span_text ed1 s ?ls = ''_:''" "same_outside ed ed1 s ?ls"
    by auto
  have r: "import_c (ImportNamespaceSpecifier s e local) ed = Some ed1"
    using h(1) by (simp add: ImportNamespaceSpecifier_edits_def)
  have "span_text ed1 ?ls e = span_text ed ?ls e"
    by (intro same_outside_span[OF h(3)]) auto
  then have "span_text ed1 s e = ''_:'' @ span_text ed ?ls e"
    using w h(2) span_split[of s ?ls e ed1] by simp
  moreover have "same_outside ed ed1 s e" using w by (intro same_outside_mono[OF h(3)]) auto
  ultimately show ?thesis using r ImportNamespaceSpecifier by simp
qed (use wf in auto)

lemma specifier_region_step:
  assumes "wf_specifier d"
  shows "region_step import_c (\<lambda>d ed. binding ed d) d"
  unfolding region_step_def
proof (intro conjI allI impI)
  fix ed assume "node_end d \<le> length (index ed)"
  from specifier_text[OF assms this]
  show "\<exists>ed'. import_c d ed = Some ed' \<and>
      span_text ed' (node_start d) (node_end d) = binding ed d \<and>
      same_outside ed ed' (node_start d) (node_end d)" .
next
  fix ed1 ed2
  assume "length (index ed1) = length (index ed2)"
    "\<forall>i. node_start d \<le> i \<and> i < node_end d \<longrightarrow> index ed1 ! i = index ed2 ! i"
  then show "binding ed1 d = binding ed2 d" using assms by (rule binding_local)
qed

lemma spaced_regions_snoc:
  "spaced_regions p L (xs @ [y]) \<Longrightarrow>
   spaced_regions p L xs \<and> (\<forall>x \<in> set xs. node_end x < node_start y) \<and>
   p < node_start y \<and> node_start y < node_end y \<and> node_end y \<le> L"
proof (induction xs arbitrary: p)
  case Nil
  then show ?case by simp
next
  case (Cons a xs)
  from Cons.prems have a: "p < node_start a" "node_start a < node_end a"
    "spaced_regions (node_end a) L (xs @ [y])" by simp_all
  from Cons.IH[OF a(3)] a show ?case by auto
qed

lemma spaced_regions_start:
  "spaced_regions p L (a # ds) \<Longrightarrow> x \<in> set (a # ds) \<Longrightarrow> node_start a \<le> node_start x"
  using spaced_regions_bounds[of "node_end a" L ds x] by auto

lemma spaced_regions_end_last:
  assumes "spaced_regions p L ds" "x \<in> set ds"
  shows "node_end x \<le> node_end (last ds)"
proof (cases "x = last ds")
  case True
  then show ?thesis by simp
next
  case False
  have "ds \<noteq> []" using assms(2) by auto
  then have l: "last ds \<in> set ds" by simp
  from spaced_regions_last[OF assms False] spaced_regions_bounds[OF assms(1) l]
  show ?thesis by simp
qed

lemma join_specifiers_text:
  "spaced_regions p (length (index ed)) (cur # rest) \<Longrightarrow>
   \<exists>ed1. join_specifiers cur rest ed = Some (last (cur # rest), ed1) \<and>
     length (index ed1) = length (index ed) \<and>
     (\<forall>k. Suc k < length (cur # rest) \<longrightarrow>
        span_text ed1 (node_end ((cur # rest) ! k)) (node_start ((cur # rest) ! Suc k)) = '','') \<and>
     (\<forall>i < length (index ed).
        i < node_end cur \<or> node_start (last (cur # rest)) \<le> i \<or>
        (\<exists>d \<in> set (cur # rest). node_start d \<le> i \<and> i < node_end d) \<longrightarrow>
        index ed1 ! i = index ed ! i)"
proof (induction rest arbitrary: p cur ed)
  case Nil
  then show ?case by simp
next
  case (Cons d rest)
  let ?L = "length (index ed)"
  have reg: "spaced_regions (node_end cur) ?L (d # rest)" using Cons.prems by simp
  have bd: "\<And>x. x \<in> set (d # rest) \<Longrightarrow>
              node_end cur < node_start x \<and> node_start x < node_end x \<and> node_end x \<le> ?L \<and>
              node_start d \<le> node_start x"
    using spaced_regions_bounds[OF reg] spaced_regions_start[OF reg] by blast
  have bc: "node_start cur < node_end cur" using Cons.prems by simp
  have lin: "last (d # rest) \<in> set (d # rest)" by simp
  from replace_text[of "node_end cur" "node_start d" ed "'',''"] bd[of d] obtain edx where
    hx: "SourceEditor_replace (node_end cur) (node_start d) (Str '','') ed = Some edx"
        "span_text edx (node_end cur) (node_start d) = '',''"
        "same_outside ed edx (node_end cur) (node_start d)"
    by auto
  have lx: "length (index edx) = ?L" using hx(3) by (simp add: same_outside_def)
  have regx: "spaced_regions (node_end cur) (length (index edx)) (d # rest)" using reg lx by simp
  from Cons.IH[OF regx] obtain ed1 where
    h1: "join_specifiers d rest edx = Some (last (d # rest), ed1)"
        "length (index ed1) = length (index edx)"
        "\<forall>k. Suc k < length (d # rest) \<longrightarrow>
           span_text ed1 (node_end ((d # rest) ! k)) (node_start ((d # rest) ! Suc k)) = '',''"
        "\<forall>i < length (index edx).
           i < node_end d \<or> node_start (last (d # rest)) \<le> i \<or>
           (\<exists>x \<in> set (d # rest). node_start x \<le> i \<and> i < node_end x) \<longrightarrow>
           index ed1 ! i = index edx ! i"
    by blast
  have res: "join_specifiers cur (d # rest) ed = Some (last (cur # d # rest), ed1)"
    using hx(1) h1(1) by simp
  have len: "length (index ed1) = ?L" using h1(2) lx by simp
  have gap0: "span_text ed1 (node_end cur) (node_start d) = '',''"
  proof -
    have "span_text ed1 (node_end cur) (node_start d) = span_text edx (node_end cur) (node_start d)"
    proof (rule span_cong[OF h1(2)])
      fix i assume "node_end cur \<le> i" "i < node_start d" "i < length (index edx)"
      then show "index ed1 ! i = index edx ! i" using h1(4) bd[of d] by simp
    qed
    then show ?thesis using hx(2) by simp
  qed
  have gaps: "\<forall>k. Suc k < length (cur # d # rest) \<longrightarrow>
        span_text ed1 (node_end ((cur # d # rest) ! k)) (node_start ((cur # d # rest) ! Suc k)) = '',''"
  proof (intro allI impI)
    fix k assume k: "Suc k < length (cur # d # rest)"
    show "span_text ed1 (node_end ((cur # d # rest) ! k)) (node_start ((cur # d # rest) ! Suc k)) = '',''"
    proof (cases k)
      case 0
      then show ?thesis using gap0 by simp
    next
      case (Suc k')
      then have "Suc k' < length (d # rest)" using k by simp
      then show ?thesis using h1(3) Suc by simp
    qed
  qed
  have frame: "\<forall>i < ?L.
        i < node_end cur \<or> node_start (last (cur # d # rest)) \<le> i \<or>
        (\<exists>x \<in> set (cur # d # rest). node_start x \<le> i \<and> i < node_end x) \<longrightarrow>
        index ed1 ! i = index ed ! i"
  proof (intro allI impI)
    fix i assume i: "i < ?L" and c: "i < node_end cur \<or> node_start (last (cur # d # rest)) \<le> i \<or>
        (\<exists>x \<in> set (cur # d # rest). node_start x \<le> i \<and> i < node_end x)"
    have l: "last (cur # d # rest) = last (d # rest)" by simp
    have c': "i < node_end cur \<or> node_start (last (d # rest)) \<le> i \<or>
        (\<exists>x \<in> set (cur # d # rest). node_start x \<le> i \<and> i < node_end x)"
      using c unfolding l .
    have out: "i < node_end cur \<or> node_start d \<le> i"
    proof -
      have "node_start (last (d # rest)) \<le> i \<Longrightarrow> node_start d \<le> i"
        using bd[OF lin] by linarith
      moreover have "\<And>x. x \<in> set (cur # d # rest) \<Longrightarrow> node_start x \<le> i \<Longrightarrow> i < node_end x \<Longrightarrow>
                i < node_end cur \<or> node_start d \<le> i"
      proof -
        fix x assume x: "x \<in> set (cur # d # rest)" "node_start x \<le> i" "i < node_end x"
        show "i < node_end cur \<or> node_start d \<le> i"
        proof (cases "x = cur")
          case True
          then show ?thesis using x by simp
        next
          case False
          then have "x \<in> set (d # rest)" using x(1) by simp
          from bd[OF this] x(2) show ?thesis by linarith
        qed
      qed
      ultimately show ?thesis using c' by blast
    qed
    have inn: "i < node_end d \<or> node_start (last (d # rest)) \<le> i \<or>
           (\<exists>x \<in> set (d # rest). node_start x \<le> i \<and> i < node_end x)"
    proof -
      have "i < node_end cur \<Longrightarrow> i < node_end d" using bd[of d] by simp
      moreover have "\<And>x. x \<in> set (cur # d # rest) \<Longrightarrow> node_start x \<le> i \<Longrightarrow> i < node_end x \<Longrightarrow>
                i < node_end d \<or> (\<exists>x \<in> set (d # rest). node_start x \<le> i \<and> i < node_end x)"
      proof -
        fix x assume x: "x \<in> set (cur # d # rest)" "node_start x \<le> i" "i < node_end x"
        show "i < node_end d \<or> (\<exists>x \<in> set (d # rest). node_start x \<le> i \<and> i < node_end x)"
        proof (cases "x = cur")
          case True
          then show ?thesis using x bd[of d] by simp
        next
          case False
          then have "x \<in> set (d # rest)" using x(1) by simp
          then show ?thesis using x(2,3) by blast
        qed
      qed
      ultimately show ?thesis using c' by blast
    qed
    have "i < length (index edx)" using i lx by simp
    then have "index ed1 ! i = index edx ! i" using h1(4)[rule_format, OF _ inn] by simp
    moreover have "index edx ! i = index ed ! i"
      using hx(3) i out by (auto simp: same_outside_def)
    ultimately show "index ed1 ! i = index ed ! i" by simp
  qed
  show ?case using res len gaps frame by blast
qed

lemma joined_text:
  "spaced_regions p L ds \<Longrightarrow> ds \<noteq> [] \<Longrightarrow>
   (\<forall>d \<in> set ds. span_text ed (node_start d) (node_end d) = B d) \<Longrightarrow>
   (\<forall>k. Suc k < length ds \<longrightarrow> span_text ed (node_end (ds ! k)) (node_start (ds ! Suc k)) = t) \<Longrightarrow>
   span_text ed (node_start (hd ds)) (node_end (last ds)) = joined B t ds"
proof (induction ds arbitrary: p)
  case Nil
  then show ?case by simp
next
  case (Cons d ds)
  show ?case
  proof (cases ds)
    case Nil
    then show ?thesis using Cons.prems by simp
  next
    case (Cons d' rest)
    have reg: "spaced_regions (node_end d) L ds" using Cons.prems(1) by simp
    have ne: "ds \<noteq> []" using Cons by simp
    have lin: "last ds \<in> set ds" using ne by simp
    have o: "node_start d < node_end d" "node_end d < node_start d'" "node_start d' < node_end (last ds)"
      using Cons.prems(1) Cons spaced_regions_bounds[OF reg lin] spaced_regions_start[of "node_end d" L d' rest "last ds"]
        reg lin by auto
    have gap: "span_text ed (node_end d) (node_start d') = t"
      using Cons.prems(4)[rule_format, of 0] Cons by simp
    have tl: "\<forall>k. Suc k < length ds \<longrightarrow> span_text ed (node_end (ds ! k)) (node_start (ds ! Suc k)) = t"
    proof (intro allI impI)
      fix k assume "Suc k < length ds"
      then show "span_text ed (node_end (ds ! k)) (node_start (ds ! Suc k)) = t"
        using Cons.prems(4)[rule_format, of "Suc k"] by simp
    qed
    have "span_text ed (node_start (hd ds)) (node_end (last ds)) = joined B t ds"
      using Cons.prems(3) by (intro Cons.IH[OF reg ne _ tl]) simp
    then have rest: "span_text ed (node_start d') (node_end (last ds)) = joined B t ds"
      using Cons by simp
    have "span_text ed (node_start d) (node_end (last ds)) =
            span_text ed (node_start d) (node_end d) @ span_text ed (node_end d) (node_start d') @
            span_text ed (node_start d') (node_end (last ds))"
      using o span_split[of "node_start d" "node_end d" "node_end (last ds)" ed]
        span_split[of "node_end d" "node_start d'" "node_end (last ds)" ed] by simp
    then show ?thesis using Cons.prems(3) gap rest Cons ne by simp
  qed
qed

lemma ImportDeclaration_edits_text:
  assumes reg: "spaced_regions s (length (index ed)) (spec @ [src])"
    and ne: "spec \<noteq> []"
    and E: "max e (Suc (node_end src)) \<le> length (index ed)"
  shows "\<exists>edD. ImportDeclaration_edits s e spec src ed = Some edD \<and>
           length (index edD) = length (index ed) \<and>
           span_text edD s (node_start (hd spec)) = ''var {'' \<and>
           (\<forall>k. Suc k < length spec \<longrightarrow>
              span_text edD (node_end (spec ! k)) (node_start (spec ! Suc k)) = '','') \<and>
           span_text edD (node_end (last spec)) (node_start src) = ''} = {_:await '' @ importFn @ ''('' \<and>
           span_text edD (node_end src) (max e (Suc (node_end src))) = '')};'' \<and>
           (\<forall>i < length (index ed).
              i < s \<or> max e (Suc (node_end src)) \<le> i \<or>
              (\<exists>d \<in> set (spec @ [src]). node_start d \<le> i \<and> i < node_end d) \<longrightarrow>
              index edD ! i = index ed ! i)"
proof -
  let ?L = "length (index ed)"
  let ?E = "max e (Suc (node_end src))"
  let ?T = "''} = {_:await '' @ importFn @ ''(''"
  from ne obtain cur rest where spec: "spec = cur # rest" by (cases spec) auto
  let ?last = "last spec"
  have lin: "?last \<in> set spec" using ne by simp
  from spaced_regions_snoc[OF reg] have
    regs: "spaced_regions s ?L spec" and
    before_src: "\<forall>x \<in> set spec. node_end x < node_start src" and
    src: "node_start src < node_end src" "node_end src \<le> ?L"
    by simp_all
  have o1: "s < node_start cur" "node_start cur < node_end cur"
    using regs spec by simp_all
  have o2: "\<And>d. d \<in> set spec \<Longrightarrow> node_start cur \<le> node_start d \<and> node_start d < node_end d \<and>
             node_end d \<le> node_end ?last \<and> node_end d < node_start src \<and> node_end d \<le> ?L"
    using spaced_regions_start[of s ?L cur rest] spaced_regions_bounds[OF regs]
      spaced_regions_end_last[OF regs] before_src regs spec by auto
  have o3: "node_end src < ?E" by simp
  have ol: "node_start cur \<le> node_start ?last" "node_start ?last < node_end ?last"
           "node_end ?last < node_start src"
    using o2[OF lin] by simp_all
  \<comment> \<open>the four kinds of edits\<close>
  from replace_text[of s "node_start cur" ed "''var {''"] o1 o2[OF lin] ol obtain edA where
    hA: "SourceEditor_replace s (node_start cur) (Str ''var {'') ed = Some edA"
        "span_text edA s (node_start cur) = ''var {''"
        "same_outside ed edA s (node_start cur)"
    by auto
  have lA: "length (index edA) = ?L" using hA(3) by (simp add: same_outside_def)
  have regA: "spaced_regions s (length (index edA)) (cur # rest)" using regs spec lA by simp
  from join_specifiers_text[OF regA] obtain edJ where
    hJ: "join_specifiers cur rest edA = Some (last (cur # rest), edJ)"
        "length (index edJ) = length (index edA)"
        "\<forall>k. Suc k < length (cur # rest) \<longrightarrow>
           span_text edJ (node_end ((cur # rest) ! k)) (node_start ((cur # rest) ! Suc k)) = '',''"
        "\<forall>i < length (index edA).
           i < node_end cur \<or> node_start (last (cur # rest)) \<le> i \<or>
           (\<exists>d \<in> set (cur # rest). node_start d \<le> i \<and> i < node_end d) \<longrightarrow>
           index edJ ! i = index edA ! i"
    by blast
  have lJ: "length (index edJ) = ?L" using hJ(2) lA by simp
  from replace_text[of "node_end ?last" "node_start src" edJ ?T] ol src lJ obtain edC where
    hC: "SourceEditor_replace (node_end ?last) (node_start src) (Str ?T) edJ = Some edC"
        "span_text edC (node_end ?last) (node_start src) = ?T"
        "same_outside edJ edC (node_end ?last) (node_start src)"
    by auto
  have lC: "length (index edC) = ?L" using hC(3) lJ by (simp add: same_outside_def)
  have "node_end src < length (index edC)" "e \<le> length (index edC)" using E lC by simp_all
  from replace_text_max[OF this, of "'')};''"] obtain edD where
    hD: "SourceEditor_replace (node_end src) e (Str '')};'') edC = Some edD"
        "span_text edD (node_end src) ?E = '')};''"
        "same_outside edC edD (node_end src) ?E"
    by blast
  have lD: "length (index edD) = ?L" using hD(3) lC by (simp add: same_outside_def)
  have res: "ImportDeclaration_edits s e spec src ed = Some edD"
    using hA(1) hJ(1) hC(1) hD(1) spec by (simp add: ImportDeclaration_edits_def)
  \<comment> \<open>what the result holds\<close>
  have r1: "span_text edD s (node_start (hd spec)) = ''var {''"
  proof -
    have "span_text edD s (node_start cur) = span_text edC s (node_start cur)"
      using ol src by (intro same_outside_span[OF hD(3)]) auto
    also have "\<dots> = span_text edJ s (node_start cur)"
      using ol by (intro same_outside_span[OF hC(3)]) auto
    also have "\<dots> = span_text edA s (node_start cur)"
    proof (rule span_cong[OF hJ(2)])
      fix i assume "s \<le> i" "i < node_start cur" "i < length (index edA)"
      then show "index edJ ! i = index edA ! i" using hJ(4) o1 by simp
    qed
    finally show ?thesis using hA(2) spec by simp
  qed
  have r2: "\<forall>k. Suc k < length spec \<longrightarrow>
              span_text edD (node_end (spec ! k)) (node_start (spec ! Suc k)) = '',''"
  proof (intro allI impI)
    fix k assume k: "Suc k < length spec"
    then have m: "spec ! Suc k \<in> set spec" by simp
    let ?a = "node_end (spec ! k)" and ?b = "node_start (spec ! Suc k)"
    have b: "?b < node_end ?last" "?b < node_start src" using o2[OF m] by simp_all
    have "span_text edD ?a ?b = span_text edC ?a ?b"
      using b src by (intro same_outside_span[OF hD(3)]) auto
    also have "\<dots> = span_text edJ ?a ?b"
      using b by (intro same_outside_span[OF hC(3)]) auto
    finally show "span_text edD ?a ?b = '',''" using hJ(3) k spec by simp
  qed
  have r3: "span_text edD (node_end ?last) (node_start src) = ?T"
  proof -
    have "span_text edD (node_end ?last) (node_start src) = span_text edC (node_end ?last) (node_start src)"
      using src by (intro same_outside_span[OF hD(3)]) auto
    then show ?thesis using hC(2) by simp
  qed
  have frame: "\<forall>i < ?L. i < s \<or> ?E \<le> i \<or>
              (\<exists>d \<in> set (spec @ [src]). node_start d \<le> i \<and> i < node_end d) \<longrightarrow>
              index edD ! i = index ed ! i"
  proof (intro allI impI)
    fix i assume i: "i < ?L" and c: "i < s \<or> ?E \<le> i \<or>
              (\<exists>d \<in> set (spec @ [src]). node_start d \<le> i \<and> i < node_end d)"
    have cases: "i < s \<or> ?E \<le> i \<or> (\<exists>d \<in> set spec. node_start d \<le> i \<and> i < node_end d) \<or>
                 (node_start src \<le> i \<and> i < node_end src)"
      using c by auto
    have outA: "i < s \<or> node_start cur \<le> i"
    proof -
      have "\<And>d. d \<in> set spec \<Longrightarrow> node_start d \<le> i \<Longrightarrow> node_start cur \<le> i"
        using o2 by fastforce
      moreover have "?E \<le> i \<Longrightarrow> node_start cur \<le> i" using ol src o3 by linarith
      moreover have "node_start src \<le> i \<Longrightarrow> node_start cur \<le> i" using ol by linarith
      ultimately show ?thesis using cases by blast
    qed
    have condJ: "i < node_end cur \<or> node_start (last (cur # rest)) \<le> i \<or>
           (\<exists>d \<in> set (cur # rest). node_start d \<le> i \<and> i < node_end d)"
    proof -
      have "i < s \<Longrightarrow> i < node_end cur" using o1 by simp
      moreover have "?E \<le> i \<Longrightarrow> node_start ?last \<le> i" using ol src o3 by linarith
      moreover have "node_start src \<le> i \<Longrightarrow> node_start ?last \<le> i" using ol by linarith
      ultimately show ?thesis using cases spec by blast
    qed
    have outC: "i < node_end ?last \<or> node_start src \<le> i"
    proof -
      have "\<And>d. d \<in> set spec \<Longrightarrow> i < node_end d \<Longrightarrow> i < node_end ?last"
        using o2 by fastforce
      moreover have "i < s \<Longrightarrow> i < node_end ?last" using o1 ol by linarith
      moreover have "?E \<le> i \<Longrightarrow> node_start src \<le> i" using src o3 by linarith
      ultimately show ?thesis using cases by blast
    qed
    have outD: "i < node_end src \<or> ?E \<le> i"
    proof -
      have "\<And>d. d \<in> set spec \<Longrightarrow> i < node_end d \<Longrightarrow> i < node_end src"
        using o2 src by fastforce
      moreover have "i < s \<Longrightarrow> i < node_end src" using o1 ol src by linarith
      ultimately show ?thesis using cases by blast
    qed
    have "index edD ! i = index edC ! i" using hD(3) i lC outD by (auto simp: same_outside_def)
    also have "\<dots> = index edJ ! i" using hC(3) i lJ outC by (auto simp: same_outside_def)
    also have "\<dots> = index edA ! i"
    proof -
      have "i < length (index edA)" using i lA by simp
      then show ?thesis using hJ(4)[rule_format, OF _ condJ] by simp
    qed
    also have "\<dots> = index ed ! i" using hA(3) i outA by (auto simp: same_outside_def)
    finally show "index edD ! i = index ed ! i" .
  qed
  show ?thesis using res lD r1 r2 r3 hD(2) frame by blast
qed

lemma spaced_regions_nth:
  "spaced_regions p L ds \<Longrightarrow> i < j \<Longrightarrow> j < length ds \<Longrightarrow> node_end (ds ! i) < node_start (ds ! j)"
proof (induction ds arbitrary: p i j)
  case Nil
  then show ?case by simp
next
  case (Cons a ds)
  have reg: "spaced_regions (node_end a) L ds" using Cons.prems(1) by simp
  obtain j' where j: "j = Suc j'" using Cons.prems(2) by (cases j) auto
  then have j'l: "j' < length ds" using Cons.prems(3) by simp
  show ?case
  proof (cases i)
    case 0
    have "ds ! j' \<in> set ds" using j'l by simp
    from spaced_regions_bounds[OF reg this] show ?thesis using 0 j by simp
  next
    case (Suc i')
    then have "i' < j'" using Cons.prems(2) j by simp
    from Cons.IH[OF reg this j'l] show ?thesis using Suc j by simp
  qed
qed

lemma gap_outside:
  assumes reg: "spaced_regions p L ds" and k: "Suc k < length ds"
    and i: "node_end (ds ! k) \<le> i" "i < node_start (ds ! Suc k)" and d: "d \<in> set ds"
  shows "i < node_start d \<or> node_end d \<le> i"
proof -
  from d obtain j where j: "j < length ds" "d = ds ! j" by (auto simp: in_set_conv_nth)
  consider "j < k" | "j = k" | "j = Suc k" | "Suc k < j" by linarith
  then show ?thesis
  proof cases
    case 1
    have "ds ! k \<in> set ds" using k by simp
    from spaced_regions_nth[OF reg 1] k spaced_regions_bounds[OF reg this] i j
    show ?thesis by simp
  next
    case 2
    then show ?thesis using i j by simp
  next
    case 3
    then show ?thesis using i j by simp
  next
    case 4
    have "ds ! Suc k \<in> set ds" using k by simp
    from spaced_regions_nth[OF reg 4 j(1)] spaced_regions_bounds[OF reg this] i j
    show ?thesis by simp
  qed
qed

text \<open>
  The visit of an import declaration whose specifiers are well placed, lie one after the
  other behind the \<open>import\<close> keyword and before the module specifier, the statement lying
  inside the index. The visit returns normally. With at least one specifier it leaves
  \<open>var {\<close>, the bindings of the specifiers joined by commas, \<open>} = {_:await __import(\<close>,
  the text of the module specifier and \<open>)};\<close>; with no specifier it leaves
  \<open>await __import(\<close>, the text of the module specifier and \<open>);\<close>. The closing text is put
  into the node behind the module specifier. That node belongs to the statement when
  the statement goes on behind the module specifier (with a semicolon); when the
  statement ends with the module specifier, it is the node of the character that
  follows the statement. So the text is stated for the span from the start of the
  statement to \<open>max end (source.end + 1)\<close>.
\<close>

lemma import_rewrite:
  assumes wf: "list_all wf_specifier spec"
    and reg: "spaced_regions s (length (index ed)) (spec @ [Literal ss se])"
    and E: "max e (Suc se) \<le> length (index ed)"
  shows "\<exists>ed'. import_c (ImportDeclaration s e spec (Literal ss se)) ed = Some ed' \<and>
           span_text ed' s (max e (Suc se)) =
             (if spec = [] then ''await '' @ importFn @ ''('' @ span_text ed ss se @ '');''
              else ''var {'' @ joined (binding ed) '','' spec @ ''} = {_:await '' @ importFn @ ''('' @
                   span_text ed ss se @ '')};'') \<and>
           same_outside ed ed' s (max e (Suc se))"
proof (cases "spec = []")
  case True
  let ?L = "length (index ed)"
  let ?E = "max e (Suc se)"
  let ?T = "''await '' @ importFn @ ''(''"
  have o: "s < ss" "ss < se" "se \<le> ?L" "se < ?E" using reg True by simp_all
  from replace_text[of s ss ed ?T] o obtain ed1 where
    h1: "SourceEditor_replace s ss (Str ?T) ed = Some ed1"
        "span_text ed1 s ss = ?T" "same_outside ed ed1 s ss"
    by auto
  have l1: "length (index ed1) = ?L" using h1(3) by (simp add: same_outside_def)
  have "se < length (index ed1)" "e \<le> length (index ed1)" using E l1 by simp_all
  from replace_text_max[OF this, of "'');''"] obtain ed2 where
    h2: "SourceEditor_replace se e (Str '');'') ed1 = Some ed2"
        "span_text ed2 se ?E = '');''" "same_outside ed1 ed2 se ?E"
    by blast
  have res: "import_c (ImportDeclaration s e spec (Literal ss se)) ed = Some ed2"
    using h1(1) h2(1) True by (simp add: ImportDeclaration_edits_def)
  have a: "span_text ed2 s ss = ?T"
  proof -
    have "span_text ed2 s ss = span_text ed1 s ss"
      using o by (intro same_outside_span[OF h2(3)]) auto
    then show ?thesis using h1(2) by simp
  qed
  have b: "span_text ed2 ss se = span_text ed ss se"
  proof -
    have "span_text ed2 ss se = span_text ed1 ss se"
      by (intro same_outside_span[OF h2(3)]) auto
    also have "\<dots> = span_text ed ss se"
      by (intro same_outside_span[OF h1(3)]) auto
    finally show ?thesis .
  qed
  have "span_text ed2 s ?E = span_text ed2 s ss @ span_text ed2 ss se @ span_text ed2 se ?E"
    using o span_split[of s ss ?E ed2] span_split[of ss se ?E ed2] by simp
  then have tx: "span_text ed2 s ?E = ?T @ span_text ed ss se @ '');''"
    using a b h2(2) by simp
  have s1: "same_outside ed ed1 s ?E" using o by (intro same_outside_mono[OF h1(3)]) auto
  have s2: "same_outside ed1 ed2 s ?E" using o by (intro same_outside_mono[OF h2(3)]) auto
  have "same_outside ed ed2 s ?E" using s1 s2 by (rule same_outside_trans)
  then show ?thesis using res tx True by simp
next
  case False
  let ?L = "length (index ed)"
  let ?E = "max e (Suc se)"
  let ?src = "Literal ss se"
  let ?T = "''} = {_:await '' @ importFn @ ''(''"
  let ?last = "last spec"
  have lin: "?last \<in> set spec" using False by simp
  have hdin: "hd spec \<in> set spec" using False by simp
  from spaced_regions_snoc[OF reg] have
    regs: "spaced_regions s ?L spec" and
    before_src: "\<forall>x \<in> set spec. node_end x < ss" and
    src: "ss < se" "se \<le> ?L"
    by simp_all
  have bounds: "\<And>d. d \<in> set spec \<Longrightarrow> s < node_start d \<and> node_start d < node_end d \<and>
            node_end d \<le> node_end ?last \<and> node_end d < ss \<and> node_start (hd spec) \<le> node_start d"
  proof -
    fix d assume d: "d \<in> set spec"
    obtain cur rest where spec: "spec = cur # rest" using False by (cases spec) auto
    have "node_start (hd spec) \<le> node_start d"
      using spaced_regions_start[of s ?L cur rest d] regs d spec by simp
    then show "s < node_start d \<and> node_start d < node_end d \<and>
            node_end d \<le> node_end ?last \<and> node_end d < ss \<and> node_start (hd spec) \<le> node_start d"
      using spaced_regions_bounds[OF regs d] spaced_regions_end_last[OF regs d] before_src d by simp
  qed
  have E': "max e (Suc (node_end ?src)) \<le> ?L" using E by simp
  from ImportDeclaration_edits_text[OF reg False E'] obtain edD where
    hD: "ImportDeclaration_edits s e spec ?src ed = Some edD"
        "length (index edD) = ?L"
        "span_text edD s (node_start (hd spec)) = ''var {''"
        "\<forall>k. Suc k < length spec \<longrightarrow>
              span_text edD (node_end (spec ! k)) (node_start (spec ! Suc k)) = '',''"
        "span_text edD (node_end ?last) ss = ?T"
        "span_text edD se ?E = '')};''"
        "\<forall>i < ?L. i < s \<or> ?E \<le> i \<or>
              (\<exists>d \<in> set (spec @ [?src]). node_start d \<le> i \<and> i < node_end d) \<longrightarrow>
              index edD ! i = index ed ! i"
    by auto
  \<comment> \<open>the walk into the specifiers\<close>
  have steps: "\<forall>d \<in> set spec. region_step import_c (\<lambda>d ed. binding ed d) d"
    using wf by (auto simp: list_all_iff intro: specifier_region_step)
  have regD: "spaced_regions s (length (index edD)) spec" using regs hD(2) by simp
  from walk_each_regions[OF steps regD] obtain ed2 where
    h2: "walk_each import_c spec edD = Some ed2" "length (index ed2) = length (index edD)"
        "\<forall>d \<in> set spec. span_text ed2 (node_start d) (node_end d) = binding edD d"
        "\<forall>i < length (index edD). (\<forall>d \<in> set spec. i < node_start d \<or> node_end d \<le> i) \<longrightarrow>
            index ed2 ! i = index edD ! i"
    by blast
  have res: "import_c (ImportDeclaration s e spec ?src) ed = Some ed2"
    using hD(1) h2(1) by simp
  have keep: "\<And>a b. (\<And>i. a \<le> i \<Longrightarrow> i < b \<Longrightarrow> \<forall>d \<in> set spec. i < node_start d \<or> node_end d \<le> i) \<Longrightarrow>
                span_text ed2 a b = span_text edD a b"
  proof -
    fix a b assume o: "\<And>i. a \<le> i \<Longrightarrow> i < b \<Longrightarrow> \<forall>d \<in> set spec. i < node_start d \<or> node_end d \<le> i"
    show "span_text ed2 a b = span_text edD a b"
    proof (rule span_cong[OF h2(2)])
      fix i assume "a \<le> i" "i < b" "i < length (index edD)"
      then show "index ed2 ! i = index edD ! i" using h2(4) o by simp
    qed
  qed
  have p1: "span_text ed2 s (node_start (hd spec)) = ''var {''"
  proof -
    have "span_text ed2 s (node_start (hd spec)) = span_text edD s (node_start (hd spec))"
      using bounds by (intro keep) fastforce
    then show ?thesis using hD(3) by simp
  qed
  have each: "\<forall>d \<in> set spec. span_text ed2 (node_start d) (node_end d) = binding ed d"
  proof
    fix d assume d: "d \<in> set spec"
    have "binding edD d = binding ed d"
    proof (rule binding_local)
      show "length (index edD) = length (index ed)" by (rule hD(2))
      show "wf_specifier d" using wf d by (simp add: list_all_iff)
      show "\<forall>i. node_start d \<le> i \<and> i < node_end d \<longrightarrow> index edD ! i = index ed ! i"
      proof (intro allI impI)
        fix i assume i: "node_start d \<le> i \<and> i < node_end d"
        then have "i < ?L" using bounds[OF d] src by linarith
        moreover have "\<exists>x \<in> set (spec @ [?src]). node_start x \<le> i \<and> i < node_end x"
          using d i by auto
        ultimately show "index edD ! i = index ed ! i" using hD(7) by blast
      qed
    qed
    then show "span_text ed2 (node_start d) (node_end d) = binding ed d" using h2(3) d by simp
  qed
  have gaps: "\<forall>k. Suc k < length spec \<longrightarrow>
              span_text ed2 (node_end (spec ! k)) (node_start (spec ! Suc k)) = '',''"
  proof (intro allI impI)
    fix k assume k: "Suc k < length spec"
    have "span_text ed2 (node_end (spec ! k)) (node_start (spec ! Suc k))
            = span_text edD (node_end (spec ! k)) (node_start (spec ! Suc k))"
      using gap_outside[OF regs k] by (intro keep) blast
    then show "span_text ed2 (node_end (spec ! k)) (node_start (spec ! Suc k)) = '',''"
      using hD(4) k by simp
  qed
  have p2: "span_text ed2 (node_start (hd spec)) (node_end ?last) = joined (binding ed) '','' spec"
    using regs False each gaps by (rule joined_text)
  have p3: "span_text ed2 (node_end ?last) ss = ?T"
  proof -
    have "span_text ed2 (node_end ?last) ss = span_text edD (node_end ?last) ss"
      using bounds by (intro keep) fastforce
    then show ?thesis using hD(5) by simp
  qed
  have p4: "span_text ed2 ss se = span_text ed ss se"
  proof -
    have "span_text ed2 ss se = span_text edD ss se"
      using bounds by (intro keep) fastforce
    also have "\<dots> = span_text ed ss se"
    proof (rule span_cong[OF hD(2)])
      fix i assume "ss \<le> i" "i < se" "i < ?L"
      then show "index edD ! i = index ed ! i" using hD(7) by auto
    qed
    finally show ?thesis .
  qed
  have p5: "span_text ed2 se ?E = '')};''"
  proof -
    have "span_text ed2 se ?E = span_text edD se ?E"
      using bounds src by (intro keep) fastforce
    then show ?thesis using hD(6) by simp
  qed
  have ord: "s \<le> node_start (hd spec)" "node_start (hd spec) \<le> node_end ?last"
            "node_end ?last \<le> ss" "ss \<le> se" "se \<le> ?E"
    using bounds[OF hdin] bounds[OF lin] src by simp_all
  have "span_text ed2 s ?E =
          span_text ed2 s (node_start (hd spec)) @ span_text ed2 (node_start (hd spec)) (node_end ?last) @
          span_text ed2 (node_end ?last) ss @ span_text ed2 ss se @ span_text ed2 se ?E"
    using ord span_split[of s "node_start (hd spec)" ?E ed2]
      span_split[of "node_start (hd spec)" "node_end ?last" ?E ed2]
      span_split[of "node_end ?last" ss ?E ed2] span_split[of ss se ?E ed2]
    by simp
  then have tx: "span_text ed2 s ?E =
      ''var {'' @ joined (binding ed) '','' spec @ ?T @ span_text ed ss se @ '')};''"
    using p1 p2 p3 p4 p5 by simp
  have so: "same_outside ed ed2 s ?E"
    unfolding same_outside_def
  proof (intro conjI allI impI)
    show "length (index ed2) = ?L" using h2(2) hD(2) by simp
  next
    fix i assume i: "i < ?L" "i < s \<or> ?E \<le> i"
    have "\<forall>d \<in> set spec. i < node_start d \<or> node_end d \<le> i"
      using i(2) bounds src by fastforce
    then have "index ed2 ! i = index edD ! i" using h2(4) i(1) hD(2) by simp
    moreover have "index edD ! i = index ed ! i" using hD(7) i by blast
    ultimately show "index ed2 ! i = index ed ! i" by simp
  qed
  show ?thesis using res tx so False by simp
qed

text \<open>
  For a statement that goes on behind its module specifier the rewritten span is the
  statement itself.
\<close>

lemma import_rewrite_terminated:
  assumes wf: "list_all wf_specifier spec"
    and reg: "spaced_regions s (length (index ed)) (spec @ [Literal ss se])"
    and E: "se < e" "e \<le> length (index ed)"
  shows "\<exists>ed'. import_c (ImportDeclaration s e spec (Literal ss se)) ed = Some ed' \<and>
           span_text ed' s e =
             (if spec = [] then ''await '' @ importFn @ ''('' @ span_text ed ss se @ '');''
              else ''var {'' @ joined (binding ed) '','' spec @ ''} = {_:await '' @ importFn @ ''('' @
                   span_text ed ss se @ '')};'') \<and>
           same_outside ed ed' s e"
proof -
  have m: "max e (Suc se) = e" using E(1) by simp
  have "max e (Suc se) \<le> length (index ed)" using E by simp
  from import_rewrite[OF wf reg this] show ?thesis unfolding m .
qed

text \<open>
  Examples: \<open>import d, {a as b} from 'm';\<close> and the side-effect import \<open>import 'm'\<close> at the
  end of a line, where the closing text takes the place of the line break.
\<close>

lemma import_rewrite_examples:
  "(\<exists>ed'. import_c (ImportDeclaration 0 28 import_specifiers (Literal 24 27))
             (SourceEditor_new (Str ''import d, {a as b} from 'm';'') None) = Some ed' \<and>
      SourceEditor_text ed' = ''var {_:{default:d},_:{a:b}} = {_:await __import('m')};'') \<and>
   (\<exists>ed'. import_c (ImportDeclaration 0 10 [] (Literal 7 10))
             (SourceEditor_new (Str ''import 'm'\<newline>f()'') None) = Some ed' \<and>
      SourceEditor_text ed' = ''await __import('m');f()'')"
proof -
  let ?t1 = "''import d, {a as b} from 'm';''"
  let ?ed1 = "SourceEditor_new (Str ?t1) None"
  have n1: "?t1 \<noteq> []" by simp
  have l1: "length (index ?ed1) = 28" by (simp add: length_pristine)
  have w1: "list_all wf_specifier import_specifiers" by (simp add: import_specifiers_def)
  have r1: "spaced_regions 0 (length (index ?ed1)) (import_specifiers @ [Literal 24 27])"
    by (simp add: l1 import_specifiers_def)
  have e1: "max 28 (Suc 27) \<le> length (index ?ed1)" by (simp add: l1)
  from import_rewrite[OF w1 r1 e1] obtain ed' where
    h1: "import_c (ImportDeclaration 0 28 import_specifiers (Literal 24 27)) ?ed1 = Some ed'"
        "span_text ed' 0 (max 28 (Suc 27)) =
           (if import_specifiers = [] then ''await '' @ importFn @ ''('' @ span_text ?ed1 24 27 @ '');''
            else ''var {'' @ joined (binding ?ed1) '','' import_specifiers @ ''} = {_:await '' @
                 importFn @ ''('' @ span_text ?ed1 24 27 @ '')};'')"
        "same_outside ?ed1 ed' 0 (max 28 (Suc 27))"
    by blast
  have "length (index ed') = 28" using h1(3) l1 by (simp add: same_outside_def)
  then have "SourceEditor_text ed' = span_text ed' 0 (max 28 (Suc 27))" by (simp add: text_span)
  then have t1: "SourceEditor_text ed' = ''var {_:{default:d},_:{a:b}} = {_:await __import('m')};''"
    using h1(2) by (simp add: import_specifiers_def span_pristine importFn_def)
  let ?t2 = "''import 'm'\<newline>f()''"
  let ?ed2 = "SourceEditor_new (Str ?t2) None"
  have l2: "length (index ?ed2) = 14" by (simp add: length_pristine)
  have w2: "list_all wf_specifier []" by simp
  have r2: "spaced_regions 0 (length (index ?ed2)) ([] @ [Literal 7 10])" by (simp add: l2)
  have e2: "max 10 (Suc 10) \<le> length (index ?ed2)" by (simp add: l2)
  from import_rewrite[OF w2 r2 e2] obtain ed'' where
    h2: "import_c (ImportDeclaration 0 10 [] (Literal 7 10)) ?ed2 = Some ed''"
        "span_text ed'' 0 (max 10 (Suc 10)) =
           (if ([]::node list) = [] then ''await '' @ importFn @ ''('' @ span_text ?ed2 7 10 @ '');''
            else ''var {'' @ joined (binding ?ed2) '','' [] @ ''} = {_:await '' @
                 importFn @ ''('' @ span_text ?ed2 7 10 @ '')};'')"
        "same_outside ?ed2 ed'' 0 (max 10 (Suc 10))"
    by blast
  have l2': "length (index ed'') = 14" using h2(3) l2 by (simp add: same_outside_def)
  have m: "max 10 (Suc 10) = (11::nat)" by simp
  have "span_text ed'' 11 14 = span_text ?ed2 11 14"
    using h2(3) unfolding m by (intro same_outside_span[of ?ed2 ed'' 0 11]) auto
  moreover have "SourceEditor_text ed'' = span_text ed'' 0 11 @ span_text ed'' 11 14"
    using l2' span_split[of 0 11 14 ed''] by (simp add: text_span)
  ultimately have t2: "SourceEditor_text ed'' = ''await __import('m');f()''"
    using h2(2) unfolding m by (simp add: span_pristine importFn_def)
  show ?thesis using h1(1) t1 h2(1) t2 by blast
qed

section \<open>The passes on the example cells\<close>

lemmas eval_defs = transpile_def rewrite_passes_def parseAsyncWrapped_def wrap_async_def globalVar_def importFn_def
  SourceEditor_new_def set_source_def convert_def stratify_def get_source_def SourceEditor_text_def
  push_new_def parent_is_body_def ClassDeclaration_edits_def SourceEditor_prepend_def SourceEditor_append_def
  EditNode_prepend_def EditNode_append_def return_rewrite_def Let_def
  parse_table_def wrapper_root_def wrapper_params_def
  VariableDeclaration_edits_def VariableDeclarator_edits_def wrap_declarator_def
  ObjectPattern_edits_def ArrayPattern_edits_def ImportDeclaration_edits_def
  SourceEditor_replace_def EditNode_replace_def EditNode_clear_def clear_from.simps

text \<open>
  C1, on the cell \<open>var [, a] = o;\<close>: the wrapped text parses and the import pass leaves
  it as it is, but the scope walk throws, in the visitor of the array pattern at the
  hole (the walker itself skips the hole), so \<open>transpile\<close> returns nothing: the \<open>var\<close>
  declaration is reached and not translated. The same happens to the declaration
  nested in a block, \<open>{ var [, a] = o; }\<close>. The \<open>let\<close> declaration in \<open>{ let [, a] = o; }\<close>
  is not to be translated and the cell is returned as it is; with the hole filled, in
  \<open>var [b, a] = o;\<close> and \<open>{ var [b, a] = o; }\<close>, the \<open>var\<close> declaration is translated.
\<close>

theorem hole_declaration_not_translated:
  "parseAsyncWrapped (parse_table [(wrap_async ''var [, a] = o;'', wrapper_root 59 hole_cell)])
       (wrap_async ''var [, a] = o;'')
     = Some (BlockStatement 40 58 hole_cell, wrapper_root 59 hole_cell) \<and>
   import_c (BlockStatement 40 58 hole_cell) (SourceEditor_new (Str (wrap_async ''var [, a] = o;'')) None)
     = Some (SourceEditor_new (Str (wrap_async ''var [, a] = o;'')) None) \<and>
   scope_c [] (BlockStatement 40 58 hole_cell)
       \<lparr>edit = SourceEditor_new (Str (wrap_async ''var [, a] = o;'')) None,
        body = BlockStatement 40 58 hole_cell, translatingVariableDeclaration = False\<rparr>
     = None \<and>
   transpile (parse_table [(wrap_async ''var [, a] = o;'', wrapper_root 59 hole_cell)]) ''var [, a] = o;''
     = None \<and>
   transpile (parse_table [(wrap_async ''{ var [, a] = o; }'', wrapper_root 63 (nested_hole_cell ''var''))])
       ''{ var [, a] = o; }''
     = None \<and>
   transpile (parse_table [(wrap_async ''{ let [, a] = o; }'', wrapper_root 63 (nested_hole_cell ''let''))])
       ''{ let [, a] = o; }''
     = Some ''(async (__global, __import, console) => {\<newline>{ let [, a] = o; }\<newline>})'' \<and>
   transpile (parse_table [(wrap_async ''var [b, a] = o;'', wrapper_root 60 pair_cell)]) ''var [b, a] = o;''
     = Some ''(async (__global, __import, console) => {\<newline>void (([__global.b, __global.a] = o));\<newline>})'' \<and>
   transpile (parse_table [(wrap_async ''{ var [b, a] = o; }'', wrapper_root 64 nested_pair_cell)])
       ''{ var [b, a] = o; }''
     = Some ''(async (__global, __import, console) => {\<newline>{ void (([__global.b, __global.a] = o)); }\<newline>})''"
  by (simp add: eval_defs hole_cell_def pair_cell_def nested_hole_cell_def nested_pair_cell_def)

text \<open>
  C2, on the cell \<open>import 'm'//c\<close>: the statement ends with its module specifier, and
  the import pass puts the closing \<open>);\<close> into the node of the character behind the
  statement, the first \<open>/\<close> of the comment, which is lost: the pass leaves
  \<open>await __import('m');/c\<close>. With a semicolon, in \<open>import 'm';//c\<close>, the closing text
  takes the place of the semicolon and the comment stays.
\<close>

theorem import_overwrites_next_character:
  "parseAsyncWrapped
       (parse_table [(wrap_async ''import 'm'//c'', wrapper_root 58 unterminated_import_cell)])
       (wrap_async ''import 'm'//c'')
     = Some (BlockStatement 40 57 unterminated_import_cell, wrapper_root 58 unterminated_import_cell) \<and>
   map_option SourceEditor_text
     (import_c (BlockStatement 40 57 unterminated_import_cell)
        (SourceEditor_new (Str (wrap_async ''import 'm'//c'')) None))
     = Some ''(async (__global, __import, console) => {\<newline>await __import('m');/c\<newline>})'' \<and>
   map_option SourceEditor_text
     (import_c (BlockStatement 40 58 terminated_import_cell)
        (SourceEditor_new (Str (wrap_async ''import 'm';//c'')) None))
     = Some ''(async (__global, __import, console) => {\<newline>await __import('m');//c\<newline>})''"
  by (simp add: eval_defs unterminated_import_cell_def terminated_import_cell_def)

text \<open>
  C3, on the cell \<open>class A {}\<close>: the class declaration stands directly in the wrapper
  body, and the emitted statement is \<open>__global.A=class A {});\<close>, with a closing
  parenthesis that nothing opens.
\<close>

theorem class_declaration_unbalanced:
  "transpile (parse_table [(wrap_async ''class A {}'', wrapper_root 55 class_cell)]) ''class A {}''
     = Some ''(async (__global, __import, console) => {\<newline>__global.A=class A {});\<newline>})''"
  by (simp add: eval_defs class_cell_def)

text \<open>
  C4, as stated, fails on the cell \<open>var x = 1;\<close>: the declarator becomes
  \<open>(__global.x = 1)\<close>; the initializer gets no parentheses of its own.
\<close>

theorem initializer_not_parenthesized:
  "transpile (parse_table [(wrap_async ''var x = 1;'', wrapper_root 55 var_cell)]) ''var x = 1;''
     = Some ''(async (__global, __import, console) => {\<newline>void ((__global.x = 1));\<newline>})'' \<and>
   transpile (parse_table [(wrap_async ''var x = 1;'', wrapper_root 55 var_cell)]) ''var x = 1;''
     \<noteq> Some ''(async (__global, __import, console) => {\<newline>void ((__global.x = (1)));\<newline>})''"
  by (simp add: eval_defs var_cell_def)

text \<open>
  C6, as stated, fails on the cell \<open>{ var x = 1; }\<close>: no statement of the wrapper body is
  an import or a declaration and the last one is no expression statement, yet the
  \<open>var\<close> declaration inside the block is rewritten.
\<close>

theorem nested_var_rewritten:
  "list_all (\<lambda>n. \<not> is_import_or_declaration n) block_var_cell \<and>
   \<not> is_ExpressionStatement (last block_var_cell) \<and>
   transpile (parse_table [(wrap_async ''{ var x = 1; }'', wrapper_root 59 block_var_cell)])
       ''{ var x = 1; }''
     = Some ''(async (__global, __import, console) => {\<newline>{ void ((__global.x = 1)); }\<newline>})'' \<and>
   transpile (parse_table [(wrap_async ''{ var x = 1; }'', wrapper_root 59 block_var_cell)])
       ''{ var x = 1; }''
     \<noteq> Some (wrap_async ''{ var x = 1; }'')"
  by (simp add: eval_defs block_var_cell_def)

lemma call_cell_passes:
  "rewrite_passes (parse_table [(wrap_async ''f(1)'', wrapper_root 49 call_cell)]) ''f(1)''
     = Some (BlockStatement 40 48 call_cell, SourceEditor_new (Str (wrap_async ''f(1)'')) None)"
  by (simp add: eval_defs call_cell_def)

lemma if_cell_passes:
  "rewrite_passes (parse_table [(wrap_async ''if (a) f(1)'', wrapper_root 56 if_cell)]) ''if (a) f(1)''
     = Some (BlockStatement 40 55 if_cell, SourceEditor_new (Str (wrap_async ''if (a) f(1)'')) None)"
  by (simp add: eval_defs if_cell_def)

text \<open>
  C5, witness: the cell \<open>f(1)\<close> ends in an expression statement, the cell \<open>if (a) f(1)\<close>
  does not.
\<close>

theorem trailing_return_witness:
  "transpile (parse_table [(wrap_async ''f(1)'', wrapper_root 49 call_cell)]) ''f(1)''
     = Some ''(async (__global, __import, console) => {\<newline>return (f(1))\<newline>})'' \<and>
   transpile (parse_table [(wrap_async ''if (a) f(1)'', wrapper_root 56 if_cell)]) ''if (a) f(1)''
     = Some ''(async (__global, __import, console) => {\<newline>if (a) f(1)\<newline>})''"
proof -
  let ?x = "CallExpression 42 46 (Identifier 42 43 ''f'') [Literal 44 45]"
  have w1: "wrap_async ''f(1)'' \<noteq> []" by (rule wrap_async_nonempty)
  have l1: "length (wrap_async ''f(1)'') = 49"
    by (simp add: wrap_async_def globalVar_def importFn_def)
  have a: "body_statements (BlockStatement 40 48 call_cell) = Some (Some call_cell)" by simp
  have b: "call_cell \<noteq> []" by (simp add: call_cell_def)
  have c: "last call_cell = ExpressionStatement 42 46 ?x \<and> 42 < node_end ?x \<and>
           node_end ?x \<le> length (index (SourceEditor_new (Str (wrap_async ''f(1)'')) None))"
    by (simp add: call_cell_def length_pristine[OF w1] l1)
  have "transpile (parse_table [(wrap_async ''f(1)'', wrapper_root 49 call_cell)]) ''f(1)''
     = Some ''(async (__global, __import, console) => {\<newline>return (f(1))\<newline>})''"
    using trailing_return[OF call_cell_passes a b, of 42 46 ?x] c
    by (simp add: span_pristine[OF w1] length_pristine[OF w1] l1)
       (simp add: wrap_async_def globalVar_def importFn_def)
  moreover
  have a2: "body_statements (BlockStatement 40 55 if_cell) = Some (Some if_cell)" by simp
  have b2: "if_cell \<noteq> []" by (simp add: if_cell_def)
  have c2: "\<not> is_ExpressionStatement (last if_cell)" by (simp add: if_cell_def)
  have "transpile (parse_table [(wrap_async ''if (a) f(1)'', wrapper_root 56 if_cell)]) ''if (a) f(1)''
     = Some ''(async (__global, __import, console) => {\<newline>if (a) f(1)\<newline>})''"
    using trailing_return[OF if_cell_passes a2 b2, of 0 0 "Literal 0 0"] c2
    by (simp add: text_pristine) (simp add: wrap_async_def globalVar_def importFn_def)
  ultimately show ?thesis by simp
qed

text \<open>
  C6, witness: the same two cells.
\<close>

theorem transpile_untouched_witness:
  "list_all top_untouched call_cell \<and> list_all top_untouched if_cell \<and>
   transpile (parse_table [(wrap_async ''f(1)'', wrapper_root 49 call_cell)]) ''f(1)''
     = Some ''(async (__global, __import, console) => {\<newline>return (f(1))\<newline>})'' \<and>
   transpile (parse_table [(wrap_async ''if (a) f(1)'', wrapper_root 56 if_cell)]) ''if (a) f(1)''
     = Some (wrap_async ''if (a) f(1)'')"
proof -
  let ?x = "CallExpression 42 46 (Identifier 42 43 ''f'') [Literal 44 45]"
  have u1: "list_all top_untouched call_cell" by (simp add: call_cell_def top_untouched_def)
  have u2: "list_all top_untouched if_cell" by (simp add: if_cell_def top_untouched_def)
  have p1: "parse_table [(wrap_async ''f(1)'', wrapper_root 49 call_cell)] (wrap_async ''f(1)'')
      = Some (Program 0 49 (ExpressionStatement 0 49
           (ArrowFunctionExpression 1 48 wrapper_params (BlockStatement 40 48 call_cell)) # []))"
    by (simp add: parse_table_def wrapper_root_def)
  have p2: "parse_table [(wrap_async ''if (a) f(1)'', wrapper_root 56 if_cell)] (wrap_async ''if (a) f(1)'')
      = Some (Program 0 56 (ExpressionStatement 0 56
           (ArrowFunctionExpression 1 55 wrapper_params (BlockStatement 40 55 if_cell)) # []))"
    by (simp add: parse_table_def wrapper_root_def)
  have l1: "length (wrap_async ''f(1)'') = 49"
    by (simp add: wrap_async_def globalVar_def importFn_def)
  have c: "call_cell \<noteq> [] \<and> last call_cell = ExpressionStatement 42 46 ?x \<and> 42 < node_end ?x \<and>
           node_end ?x \<le> length (wrap_async ''f(1)'')"
    by (simp add: call_cell_def l1)
  have c2: "if_cell = [] \<or> \<not> is_ExpressionStatement (last if_cell)" by (simp add: if_cell_def)
  have r1: "transpile (parse_table [(wrap_async ''f(1)'', wrapper_root 49 call_cell)]) ''f(1)''
     = Some ''(async (__global, __import, console) => {\<newline>return (f(1))\<newline>})''"
    using transpile_untouched[of "parse_table [(wrap_async ''f(1)'', wrapper_root 49 call_cell)]" "''f(1)''",
        OF p1 u1, of 42 46 ?x] c
    by simp (simp add: wrap_async_def globalVar_def importFn_def)
  have r2: "transpile (parse_table [(wrap_async ''if (a) f(1)'', wrapper_root 56 if_cell)]) ''if (a) f(1)''
     = Some (wrap_async ''if (a) f(1)'')"
    using transpile_untouched[of "parse_table [(wrap_async ''if (a) f(1)'', wrapper_root 56 if_cell)]"
        "''if (a) f(1)''", OF p2 u2, of 0 0 "Literal 0 0"] c2
    by simp
  show ?thesis using u1 u2 r1 r2 by simp
qed

end
